theory Spec2Isabelle
  imports Complex_Main
begin

section \<open>The switch environment of \<open>social_dilemmas/envs/switch.py\<close>\<close>

text \<open>
  A shallow embedding of the class \<open>SwitchEnv\<close>. The instance fields become a record that
  every method takes and returns; a Python exception becomes the left summand of the
  result. The shared grid \<open>world_map\<close> is a two-dimensional array of one-byte cells and is
  a list of rows here; reading or writing outside the array raises \<open>IndexError\<close> in the
  source and yields \<open>Inl IndexError\<close> here. Registered coordinates come from scanning an
  array with \<open>range\<close>, so they are natural numbers.

  The fields \<open>return_agent_actions\<close>, \<open>view_len\<close> and \<open>color_map\<close> and the methods for
  rendering and for the observation and action spaces do not take part in the switch
  and door logic and are left out.
\<close>

subsection \<open>Cells, grids, errors\<close>

datatype error = IndexError | KeyError | StopIteration

type_synonym cell = char
type_synonym grid = "cell list list"
type_synonym coord = "nat \<times> nat"
type_synonym agent_id = string

text \<open>\<open>np.nan\<close> or an integer: the values of the two pull-timestep fields.\<close>

datatype metric = NaN | Num int

definition grid_get :: "grid \<Rightarrow> nat \<Rightarrow> nat \<Rightarrow> error + cell" where
  "grid_get g row col =
     (if row < length g \<and> col < length (g ! row) then Inr (g ! row ! col) else Inl IndexError)"

definition grid_set :: "grid \<Rightarrow> nat \<Rightarrow> nat \<Rightarrow> cell \<Rightarrow> error + grid" where
  "grid_set g row col ch =
     (if row < length g \<and> col < length (g ! row)
      then Inr (g[row := (g ! row)[col := ch]]) else Inl IndexError)"

subsection \<open>\<open>construct_map\<close>\<close>






text \<open>The switch symbols, as the constructor's scan recognises them.\<close>

definition is_switch :: "cell \<Rightarrow> bool" where
  "is_switch ch \<longleftrightarrow> ch \<in> set [CHR ''s'', CHR ''S'']"

definition is_door :: "cell \<Rightarrow> bool" where
  "is_door ch \<longleftrightarrow> ch \<in> set [CHR ''d'', CHR ''D'']"




subsection \<open>The environment state and its constructor\<close>

text \<open>
  \<open>agents\<close> keeps, for each agent of the engine, its \<open>reward_this_turn\<close>. The dictionary
  \<open>initial_map_state\<close> is a list of pairs in insertion order.
\<close>

record env =
  base_map :: grid
  world_map :: grid
  agents :: "(agent_id \<times> real) list"
  initial_map_state :: "(coord \<times> cell) list"
  switch_locations :: "coord list"
  door_locations :: "coord list"
  switch_count :: int
  prev_activated_switch_count :: int
  timestep :: int
  total_pulled_on :: int
  total_pulled_off :: int
  timestep_first_switch_pull :: metric
  timestep_last_switch_pull :: metric
  switches_on_at_termination :: int
  total_successes :: int

text \<open>\<open>d[k] = v\<close> on a dictionary kept as a list of pairs.\<close>

fun dict_set :: "('k \<times> 'v) list \<Rightarrow> 'k \<Rightarrow> 'v \<Rightarrow> ('k \<times> 'v) list" where
  "dict_set [] k v = [(k, v)]"
| "dict_set ((k', v') # d) k v = (if k' = k then (k, v) # d else (k', v') # dict_set d k v)"

text \<open>
  The cells of an array in the order of the nested loops over \<open>range(shape[0])\<close> and
  \<open>range(shape[1])\<close>, each with its coordinates.
\<close>

definition cells_of :: "grid \<Rightarrow> (coord \<times> cell) list" where
  "cells_of g =
     concat (map (\<lambda>(row, r). map (\<lambda>(col, ch). ((row, col), ch)) (enumerate 0 r)) (enumerate 0 g))"

text \<open>The same with the rows numbered from \<open>n\<close>, for induction on the rows.\<close>

definition cells_from :: "nat \<Rightarrow> grid \<Rightarrow> (coord \<times> cell) list" where
  "cells_from n g =
     concat (map (\<lambda>(row, r). map (\<lambda>(col, ch). ((row, col), ch)) (enumerate 0 r)) (enumerate n g))"

text \<open>The body of the scan, lines 49 to 57 of the source.\<close>

definition scan_cell :: "coord \<times> cell \<Rightarrow> env \<Rightarrow> env" where
  "scan_cell rc e =
     (let (pos, current_char) = rc;
          e = (if current_char \<in> set [CHR ''s'', CHR ''S'', CHR ''d'', CHR ''D'']
               then e\<lparr>initial_map_state := dict_set (initial_map_state e) pos current_char\<rparr>
               else e);
          e = (if current_char \<in> set [CHR ''s'', CHR ''S'']
               then e\<lparr>switch_locations := switch_locations e @ [pos],
                      switch_count := switch_count e + 1\<rparr>
               else e);
          e = (if current_char \<in> set [CHR ''d'', CHR ''D'']
               then e\<lparr>door_locations := door_locations e @ [pos]\<rparr>
               else e)
      in e)"

text \<open>
  \<open>__init__\<close> after the call of the engine's constructor, which has stored the array of
  the layout as \<open>base_map\<close> and has made \<open>world_map\<close> and the agents; these three are the
  arguments. The scan reads \<open>base_map\<close> only.
\<close>

definition init :: "grid \<Rightarrow> grid \<Rightarrow> (agent_id \<times> real) list \<Rightarrow> env" where
  "init bm wm ags =
     fold scan_cell (cells_of bm)
       \<lparr>base_map = bm, world_map = wm, agents = ags,
        initial_map_state = [], switch_locations = [], door_locations = [],
        switch_count = 0, prev_activated_switch_count = 0,
        timestep = 0, total_pulled_on = 0, total_pulled_off = 0,
        timestep_first_switch_pull = NaN, timestep_last_switch_pull = NaN,
        switches_on_at_termination = 0, total_successes = 0\<rparr>"

subsection \<open>\<open>custom_reset\<close>\<close>

text \<open>The loop over \<open>initial_map_state.items()\<close>.\<close>

fun restore_cells :: "grid \<Rightarrow> (coord \<times> cell) list \<Rightarrow> error + grid" where
  "restore_cells g [] = Inr g"
| "restore_cells g ((coordinates, ch) # items) =
     (case grid_set g (fst coordinates) (snd coordinates) ch of
        Inl err \<Rightarrow> Inl err
      | Inr g' \<Rightarrow> restore_cells g' items)"

definition custom_reset :: "env \<Rightarrow> error + env" where
  "custom_reset e =
     (case restore_cells (world_map e) (initial_map_state e) of
        Inl err \<Rightarrow> Inl err
      | Inr g \<Rightarrow>
          Inr (e\<lparr>world_map := g,
                prev_activated_switch_count := 0,
                timestep := 0,
                total_pulled_on := 0,
                total_pulled_off := 0,
                timestep_first_switch_pull := NaN,
                timestep_last_switch_pull := NaN,
                switches_on_at_termination := 0,
                total_successes := 0\<rparr>))"

subsection \<open>\<open>custom_map_update\<close>\<close>

text \<open>
  Modelled from the spec: \<open>update_map\<close> of the engine (\<open>MapEnv\<close>, not part of this file),
  "a generic \<open>update_map(list of (row, col, symbol))\<close> batch-apply primitive": every
  triple of the list is written to the grid, in the order of the list.
\<close>

fun update_map :: "grid \<Rightarrow> (nat \<times> nat \<times> cell) list \<Rightarrow> error + grid" where
  "update_map g [] = Inr g"
| "update_map g ((row, col, ch) # new_points) =
     (case grid_set g row col ch of
        Inl err \<Rightarrow> Inl err
      | Inr g' \<Rightarrow> update_map g' new_points)"

text \<open>The counting loop; the last argument is the running \<open>activated_switch_count\<close>.\<close>

fun count_activated :: "grid \<Rightarrow> coord list \<Rightarrow> int \<Rightarrow> error + int" where
  "count_activated g [] activated_switch_count = Inr activated_switch_count"
| "count_activated g ((row, col) # locs) activated_switch_count =
     (case grid_get g row col of
        Inl err \<Rightarrow> Inl err
      | Inr ch \<Rightarrow>
          count_activated g locs
            (if ch = CHR ''S'' then activated_switch_count + 1 else activated_switch_count))"

text \<open>\<open>int(False)\<close>\<close>

definition GIVE_EXTERNAL_SWITCH_REWARD :: int where
  "GIVE_EXTERNAL_SWITCH_REWARD = 0"

definition custom_map_update :: "env \<Rightarrow> error + env" where
  "custom_map_update e =
     (case count_activated (world_map e) (switch_locations e) 0 of
        Inl err \<Rightarrow> Inl err
      | Inr activated_switch_count \<Rightarrow>
          (let switch_difference = activated_switch_count - prev_activated_switch_count e;
               external_switch_reward = switch_difference * GIVE_EXTERNAL_SWITCH_REWARD;
               e = e\<lparr>prev_activated_switch_count := activated_switch_count\<rparr>;
               e = e\<lparr>agents :=
                       map (\<lambda>(a, reward_this_turn).
                              (a, reward_this_turn + real_of_int external_switch_reward))
                           (agents e)\<rparr>;
               open_doors = (activated_switch_count = switch_count e);
               door_char = (if open_doors then CHR ''d'' else CHR ''D'');
               updates = map (\<lambda>(row, col). (row, col, door_char)) (door_locations e)
           in case update_map (world_map e) updates of
                Inl err \<Rightarrow> Inl err
              | Inr g \<Rightarrow>
                  (let e = e\<lparr>world_map := g\<rparr>
                   in Inr (if switch_difference \<noteq> 0
                           then e\<lparr>timestep_last_switch_pull := Num (timestep e),
                                  timestep_first_switch_pull :=
                                    (if timestep_first_switch_pull e = NaN
                                     then Num (timestep e)
                                     else timestep_first_switch_pull e),
                                  total_pulled_on :=
                                    total_pulled_on e + max 0 switch_difference,
                                  total_pulled_off :=
                                    total_pulled_off e + max 0 (- switch_difference),
                                  switches_on_at_termination := activated_switch_count\<rparr>
                           else e))))"

subsection \<open>\<open>step\<close>\<close>

definition create_extra_info_dict :: "env \<Rightarrow> (string \<times> metric) list" where
  "create_extra_info_dict e =
     [(''switches_on_at_termination'', Num (switches_on_at_termination e)),
      (''total_pulled_on'', Num (total_pulled_on e)),
      (''total_pulled_off'', Num (total_pulled_off e)),
      (''timestep_first_switch_pull'', timestep_first_switch_pull e),
      (''timestep_last_switch_pull'', timestep_last_switch_pull e),
      (''total_successes'', Num (total_successes e))]"

text \<open>
  What the engine contributes to one timestep and this file cannot see: the grid after
  all agents have moved and fired, and the four values its \<open>step\<close> returns.
\<close>

record ('o, 'd) engine_turn =
  grid_after_actions :: grid
  agents_after_actions :: "(agent_id \<times> real) list"
  engine_observations :: 'o
  engine_rewards :: "agent_id \<rightharpoonup> real"
  engine_dones :: 'd
  engine_info :: "agent_id \<rightharpoonup> (string \<times> metric) list"

text \<open>
  Modelled from the spec: \<open>step\<close> of the engine (\<open>MapEnv\<close>, not part of this file). "The
  external engine applies movement/beam effects for all agents first, then the
  Coordination State Machine runs exactly once per timestep over the resulting grid",
  then the "external engine assembles observations/rewards/info".
\<close>

definition MapEnv_step ::
  "env \<Rightarrow> ('o, 'd) engine_turn \<Rightarrow>
     error + (env \<times> 'o \<times> (agent_id \<rightharpoonup> real) \<times> 'd \<times> (agent_id \<rightharpoonup> (string \<times> metric) list))" where
  "MapEnv_step e turn =
     (case custom_map_update
             (e\<lparr>world_map := grid_after_actions turn, agents := agents_after_actions turn\<rparr>) of
        Inl err \<Rightarrow> Inl err
      | Inr e' \<Rightarrow> Inr (e', engine_observations turn, engine_rewards turn, engine_dones turn,
                       engine_info turn))"

text \<open>The double nearest to \<open>0.1\<close>, the literal of the success test.\<close>

definition success_threshold :: real where
  "success_threshold = 3602879701896397 / 36028797018963968"

text \<open>
  \<open>actions\<close> is a dictionary in insertion order; \<open>next(iter(actions.keys()))\<close> is the key
  of its first pair and raises \<open>StopIteration\<close> on the empty dictionary.
\<close>

definition step ::
  "env \<Rightarrow> (agent_id \<times> 'a) list \<Rightarrow> ('o, 'd) engine_turn \<Rightarrow>
     error + (env \<times> 'o \<times> (agent_id \<rightharpoonup> real) \<times> 'd \<times> (agent_id \<rightharpoonup> (string \<times> metric) list))" where
  "step e actions turn =
     (case MapEnv_step e turn of
        Inl err \<Rightarrow> Inl err
      | Inr (e, observations, rewards, dones, info) \<Rightarrow>
          (case actions of
             [] \<Rightarrow> Inl StopIteration
           | (first_agent, _) # _ \<Rightarrow>
               (case rewards first_agent of
                  None \<Rightarrow> Inl KeyError
                | Some r \<Rightarrow>
                    (let e = (if r > success_threshold
                              then e\<lparr>total_successes := total_successes e + 1\<rparr> else e);
                         extra_info = [first_agent \<mapsto> create_extra_info_dict e];
                         e = e\<lparr>timestep := timestep e + 1\<rparr>
                     in Inr (e, observations, rewards, dones, info ++ extra_info)))))"

text \<open>An episode: the steps of a list of turns, one after the other.\<close>

fun run_steps ::
  "env \<Rightarrow> ((agent_id \<times> 'a) list \<times> ('o, 'd) engine_turn) list \<Rightarrow> error + env" where
  "run_steps e [] = Inr e"
| "run_steps e ((actions, turn) # rest) =
     (case step e actions turn of
        Inl err \<Rightarrow> Inl err
      | Inr (e', _) \<Rightarrow> run_steps e' rest)"

subsection \<open>Reachable states and what they satisfy\<close>

definition in_grid :: "grid \<Rightarrow> coord \<Rightarrow> bool" where
  "in_grid g p \<longleftrightarrow> fst p < length g \<and> snd p < length (g ! fst p)"

definition same_shape :: "grid \<Rightarrow> grid \<Rightarrow> bool" where
  "same_shape g g' \<longleftrightarrow> map length g = map length g'"

text \<open>The number of registered switch cells that hold the on symbol.\<close>

definition num_switches_on :: "grid \<Rightarrow> coord list \<Rightarrow> nat" where
  "num_switches_on g locs =
     length (filter (\<lambda>p. grid_get g (fst p) (snd p) = Inr (CHR ''S'')) locs)"

definition activated :: "env \<Rightarrow> int" where
  "activated e = int (num_switches_on (world_map e) (switch_locations e))"

text \<open>
  The states an environment goes through. The engine makes the shared grid with the shape
  of the base layout, and between the calls of the methods above it writes cells of the
  grid and replaces the agents; it does not touch the other fields. The last two rules
  are what \<open>step\<close> itself does after the engine's part of the timestep.
\<close>

inductive reachable :: "env \<Rightarrow> bool" where
  r_init: "same_shape bm wm \<Longrightarrow> reachable (init bm wm ags)"
| r_engine: "reachable e \<Longrightarrow> same_shape (world_map e) g \<Longrightarrow>
     reachable (e\<lparr>world_map := g, agents := ags\<rparr>)"
| r_reset: "reachable e \<Longrightarrow> custom_reset e = Inr e' \<Longrightarrow> reachable e'"
| r_update: "reachable e \<Longrightarrow> custom_map_update e = Inr e' \<Longrightarrow> reachable e'"
| r_success: "reachable e \<Longrightarrow> reachable (e\<lparr>total_successes := total_successes e + 1\<rparr>)"
| r_tick: "reachable e \<Longrightarrow> reachable (e\<lparr>timestep := timestep e + 1\<rparr>)"

definition registry_ok :: "env \<Rightarrow> bool" where
  "registry_ok e \<longleftrightarrow>
     switch_locations e = map fst (filter (\<lambda>x. is_switch (snd x)) (cells_of (base_map e))) \<and>
     door_locations e = map fst (filter (\<lambda>x. is_door (snd x)) (cells_of (base_map e))) \<and>
     initial_map_state e =
       filter (\<lambda>x. is_switch (snd x) \<or> is_door (snd x)) (cells_of (base_map e)) \<and>
     switch_count e = int (length (switch_locations e)) \<and>
     same_shape (base_map e) (world_map e)"

definition metrics_ok :: "env \<Rightarrow> bool" where
  "metrics_ok e \<longleftrightarrow>
     switches_on_at_termination e = prev_activated_switch_count e \<and>
     total_pulled_on e - total_pulled_off e = prev_activated_switch_count e \<and>
     (timestep_first_switch_pull e = NaN \<longleftrightarrow> timestep_last_switch_pull e = NaN)"

subsection \<open>A two-switch environment\<close>

text \<open>
  A concrete environment to run the methods on: the layout for two switches over the
  seven-column templates, the grid as the engine makes it before the first reset (walls
  only), and two agents.
\<close>

definition example_base :: grid where
  "example_base = [''@@@D@@@'', ''@s P s@'', ''@@@@@@@'']"

definition example_walls :: grid where
  "example_walls = [''@@@ @@@'', ''@     @'', ''@@@@@@@'']"

definition example_agents :: "(agent_id \<times> real) list" where
  "example_agents = [(''agent-0'', 0), (''agent-1'', 0)]"

text \<open>The state after the constructor and one \<open>custom_reset\<close>.\<close>

definition example_start :: env where
  "example_start =
     \<lparr>base_map = example_base,
      world_map = [''@@@D@@@'', ''@s   s@'', ''@@@@@@@''],
      agents = example_agents,
      initial_map_state = [((0, 3), CHR ''D''), ((1, 1), CHR ''s''), ((1, 5), CHR ''s'')],
      switch_locations = [(1, 1), (1, 5)],
      door_locations = [(0, 3)],
      switch_count = 2, prev_activated_switch_count = 0,
      timestep = 0, total_pulled_on = 0, total_pulled_off = 0,
      timestep_first_switch_pull = NaN, timestep_last_switch_pull = NaN,
      switches_on_at_termination = 0, total_successes = 0\<rparr>"

text \<open>Two turns of the engine: both switches are pulled on, then one is pulled off.\<close>

definition example_turn_on :: "(unit, unit) engine_turn" where
  "example_turn_on =
     \<lparr>grid_after_actions = [''@@@D@@@'', ''@S   S@'', ''@@@@@@@''],
      agents_after_actions = example_agents,
      engine_observations = (),
      engine_rewards = [''agent-0'' \<mapsto> 1, ''agent-1'' \<mapsto> 0],
      engine_dones = (),
      engine_info = Map.empty\<rparr>"

definition example_turn_off :: "(unit, unit) engine_turn" where
  "example_turn_off =
     \<lparr>grid_after_actions = [''@@@d@@@'', ''@S   s@'', ''@@@@@@@''],
      agents_after_actions = example_agents,
      engine_observations = (),
      engine_rewards = [''agent-0'' \<mapsto> 0, ''agent-1'' \<mapsto> 0],
      engine_dones = (),
      engine_info = Map.empty\<rparr>"

definition example_actions :: "(agent_id \<times> int) list" where
  "example_actions = [(''agent-0'', 7), (''agent-1'', 7)]"

text \<open>The state once the engine has applied both agents' beams to the start state.\<close>

definition example_on :: env where
  "example_on = example_start\<lparr>world_map := [''@@@D@@@'', ''@S   S@'', ''@@@@@@@'']\<rparr>"

text \<open>The state that \<open>custom_map_update\<close> makes of it.\<close>

definition example_solved :: env where
  "example_solved =
     \<lparr>base_map = example_base,
      world_map = [''@@@d@@@'', ''@S   S@'', ''@@@@@@@''],
      agents = example_agents,
      initial_map_state = [((0, 3), CHR ''D''), ((1, 1), CHR ''s''), ((1, 5), CHR ''s'')],
      switch_locations = [(1, 1), (1, 5)],
      door_locations = [(0, 3)],
      switch_count = 2, prev_activated_switch_count = 2,
      timestep = 0, total_pulled_on = 2, total_pulled_off = 0,
      timestep_first_switch_pull = Num 0, timestep_last_switch_pull = Num 0,
      switches_on_at_termination = 2, total_successes = 0\<rparr>"

text \<open>The states after the first and after the second step of the episode.\<close>

definition example_after_on :: env where
  "example_after_on = example_solved\<lparr>timestep := 1, total_successes := 1\<rparr>"

definition example_after_off :: env where
  "example_after_off =
     \<lparr>base_map = example_base,
      world_map = [''@@@D@@@'', ''@S   s@'', ''@@@@@@@''],
      agents = example_agents,
      initial_map_state = [((0, 3), CHR ''D''), ((1, 1), CHR ''s''), ((1, 5), CHR ''s'')],
      switch_locations = [(1, 1), (1, 5)],
      door_locations = [(0, 3)],
      switch_count = 2, prev_activated_switch_count = 1,
      timestep = 2, total_pulled_on = 2, total_pulled_off = 1,
      timestep_first_switch_pull = Num 0, timestep_last_switch_pull = Num 1,
      switches_on_at_termination = 1, total_successes = 1\<rparr>"

section \<open>Properties\<close>

subsection \<open>The generated layout\<close>














subsection \<open>Reading and writing the grid\<close>

lemma grid_set_Inr_iff: "(\<exists>g'. grid_set g r c ch = Inr g') \<longleftrightarrow> in_grid g (r, c)"
  by (simp add: grid_set_def in_grid_def)

lemma grid_get_Inr_iff: "(\<exists>ch. grid_get g r c = Inr ch) \<longleftrightarrow> in_grid g (r, c)"
  by (simp add: grid_get_def in_grid_def)

lemma grid_set_shape: "grid_set g r c ch = Inr g' \<Longrightarrow> same_shape g g'"
  by (auto simp: grid_set_def same_shape_def map_update split: if_splits)
    (metis length_list_update list_update_id map_update)

lemma same_shape_refl: "same_shape g g"
  by (simp add: same_shape_def)

lemma same_shape_trans: "same_shape g g' \<Longrightarrow> same_shape g' g'' \<Longrightarrow> same_shape g g''"
  by (simp add: same_shape_def)

lemma same_shape_in_grid: "same_shape g g' \<Longrightarrow> in_grid g p = in_grid g' p"
proof -
  assume s: "same_shape g g'"
  then have l: "length g = length g'"
    unfolding same_shape_def by (metis length_map)
  have "length (g ! i) = length (g' ! i)" if "i < length g" for i
    using s that l unfolding same_shape_def by (metis nth_map)
  with l show ?thesis by (auto simp: in_grid_def)
qed

lemma grid_get_set:
  "grid_set g r c ch = Inr g' \<Longrightarrow>
   grid_get g' r' c' = (if r' = r \<and> c' = c then Inr ch else grid_get g r' c')"
  by (auto simp: grid_set_def grid_get_def nth_list_update split: if_splits)

lemma grid_set_same: "grid_get g r c = Inr ch \<Longrightarrow> grid_set g r c ch = Inr g"
  by (auto simp: grid_set_def grid_get_def split: if_splits)

subsection \<open>Batches of writes\<close>

lemma update_map_shape: "update_map g ups = Inr g' \<Longrightarrow> same_shape g g'"
proof (induction ups arbitrary: g)
  case Nil
  then show ?case by (simp add: same_shape_refl)
next
  case (Cons u ups)
  obtain r c ch where u: "u = (r, c, ch)" by (cases u)
  from Cons.prems u obtain g1 where g1: "grid_set g r c ch = Inr g1" "update_map g1 ups = Inr g'"
    by (auto split: sum.splits)
  show ?case
    using grid_set_shape [OF g1(1)] Cons.IH [OF g1(2)] by (rule same_shape_trans)
qed

lemma update_map_total:
  "\<forall>u \<in> set ups. in_grid g (fst u, fst (snd u)) \<Longrightarrow> \<exists>g'. update_map g ups = Inr g'"
proof (induction ups arbitrary: g)
  case Nil
  show ?case by simp
next
  case (Cons u ups)
  obtain r c ch where u: "u = (r, c, ch)" by (cases u)
  from Cons.prems u obtain g1 where g1: "grid_set g r c ch = Inr g1"
    using grid_set_Inr_iff [of g r c ch] by auto
  have "\<forall>u \<in> set ups. in_grid g1 (fst u, fst (snd u))"
    using Cons.prems same_shape_in_grid [OF grid_set_shape [OF g1]] by simp
  from Cons.IH [OF this] show ?case using u g1 by simp
qed

lemma update_map_frame:
  "update_map g ups = Inr g' \<Longrightarrow> (r, c) \<notin> (\<lambda>u. (fst u, fst (snd u))) ` set ups \<Longrightarrow>
   grid_get g' r c = grid_get g r c"
proof (induction ups arbitrary: g)
  case Nil
  then show ?case by simp
next
  case (Cons u ups)
  obtain r1 c1 ch where u: "u = (r1, c1, ch)" by (cases u)
  from Cons.prems u obtain g1 where g1: "grid_set g r1 c1 ch = Inr g1" "update_map g1 ups = Inr g'"
    by (auto split: sum.splits)
  have "grid_get g' r c = grid_get g1 r c"
    using Cons.IH [OF g1(2)] Cons.prems(2) by simp
  also have "\<dots> = grid_get g r c"
    using grid_get_set [OF g1(1), of r c] Cons.prems(2) u by auto
  finally show ?case .
qed

lemma update_map_written:
  "update_map g (map (\<lambda>(row, col). (row, col, ch)) locs) = Inr g' \<Longrightarrow> (r, c) \<in> set locs \<Longrightarrow>
   grid_get g' r c = Inr ch"
proof (induction locs arbitrary: g)
  case Nil
  then show ?case by simp
next
  case (Cons p locs)
  obtain r1 c1 where p: "p = (r1, c1)" by (cases p)
  from Cons.prems p obtain g1 where
    g1: "grid_set g r1 c1 ch = Inr g1"
        "update_map g1 (map (\<lambda>(row, col). (row, col, ch)) locs) = Inr g'"
    by (auto split: sum.splits)
  show ?case
  proof (cases "(r, c) \<in> set locs")
    case True
    then show ?thesis using Cons.IH [OF g1(2)] by simp
  next
    case False
    then have here: "r = r1" "c = c1" using Cons.prems(2) p by auto
    have "(r, c) \<notin> (\<lambda>u. (fst u, fst (snd u))) ` set (map (\<lambda>(row, col). (row, col, ch)) locs)"
      using False by (auto simp: image_iff split: prod.splits)
    then have "grid_get g' r c = grid_get g1 r c"
      using update_map_frame [OF g1(2)] by blast
    then show ?thesis using grid_get_set [OF g1(1), of r c] here by simp
  qed
qed

subsection \<open>Restoring the snapshot\<close>

lemma restore_cells_update_map:
  "restore_cells g items = update_map g (map (\<lambda>(p, ch). (fst p, snd p, ch)) items)"
  by (induction items arbitrary: g) (auto split: sum.splits)

lemma restore_cells_shape: "restore_cells g items = Inr g' \<Longrightarrow> same_shape g g'"
  by (simp add: restore_cells_update_map update_map_shape)

lemma restore_cells_total:
  "\<forall>p \<in> set (map fst items). in_grid g p \<Longrightarrow> \<exists>g'. restore_cells g items = Inr g'"
  unfolding restore_cells_update_map
  by (rule update_map_total) (auto split: prod.splits)

lemma restore_cells_written:
  "restore_cells g items = Inr g' \<Longrightarrow> distinct (map fst items) \<Longrightarrow> ((r, c), ch) \<in> set items \<Longrightarrow>
   grid_get g' r c = Inr ch"
proof (induction items arbitrary: g)
  case Nil
  then show ?case by simp
next
  case (Cons it items)
  obtain r1 c1 ch1 where it: "it = ((r1, c1), ch1)" by (cases it) auto
  from Cons.prems(1) it obtain g1 where
    g1: "grid_set g r1 c1 ch1 = Inr g1" "restore_cells g1 items = Inr g'"
    by (auto split: sum.splits)
  show ?case
  proof (cases "((r, c), ch) \<in> set items")
    case True
    then show ?thesis using Cons.IH [OF g1(2)] Cons.prems(2) by simp
  next
    case False
    then have here: "r = r1" "c = c1" "ch = ch1" using Cons.prems(3) it by auto
    have "(r1, c1) \<notin> fst ` set items" using Cons.prems(2) it by simp
    then have "(r, c) \<notin> (\<lambda>u. (fst u, fst (snd u))) ` set (map (\<lambda>(p, ch). (fst p, snd p, ch)) items)"
      using here by (auto simp: image_iff split: prod.splits)
    then have "grid_get g' r c = grid_get g1 r c"
      using update_map_frame [of g1 _ g'] g1(2) unfolding restore_cells_update_map by blast
    then show ?thesis using grid_get_set [OF g1(1), of r c] here by simp
  qed
qed

lemma restore_cells_fixed:
  "\<forall>it \<in> set items. grid_get g (fst (fst it)) (snd (fst it)) = Inr (snd it) \<Longrightarrow>
   restore_cells g items = Inr g"
  by (induction items) (auto simp: grid_set_same)

lemma restore_cells_twice:
  assumes "restore_cells g items = Inr g'" and "distinct (map fst items)"
  shows "restore_cells g' items = Inr g'"
proof (rule restore_cells_fixed, rule ballI)
  fix it assume "it \<in> set items"
  then have "((fst (fst it), snd (fst it)), snd it) \<in> set items" by simp
  from restore_cells_written [OF assms this]
  show "grid_get g' (fst (fst it)) (snd (fst it)) = Inr (snd it)" .
qed

lemma restore_cells_frame:
  "restore_cells g items = Inr g' \<Longrightarrow> (r, c) \<notin> fst ` set items \<Longrightarrow>
   grid_get g' r c = grid_get g r c"
  unfolding restore_cells_update_map
  by (erule update_map_frame) (auto simp: image_iff split: prod.splits)

subsection \<open>Counting the activated switches\<close>

lemma count_activated_eq:
  "\<forall>p \<in> set locs. in_grid g p \<Longrightarrow>
   count_activated g locs k = Inr (k + int (num_switches_on g locs))"
proof (induction locs arbitrary: k)
  case Nil
  show ?case by (simp add: num_switches_on_def)
next
  case (Cons p locs)
  obtain r c where p: "p = (r, c)" by (cases p)
  from Cons.prems p obtain ch where ch: "grid_get g r c = Inr ch"
    using grid_get_Inr_iff [of g r c] by auto
  show ?case
    using Cons.IH [of "k + 1"] Cons.IH [of k] Cons.prems p ch
    by (simp add: num_switches_on_def)
qed

lemma count_activated_Inr:
  "count_activated g locs k = Inr a \<Longrightarrow>
   a = k + int (num_switches_on g locs) \<and> (\<forall>p \<in> set locs. in_grid g p)"
proof (induction locs arbitrary: k)
  case Nil
  then show ?case by (simp add: num_switches_on_def)
next
  case (Cons p locs)
  obtain r c where p: "p = (r, c)" by (cases p)
  from Cons.prems p obtain ch where ch: "grid_get g r c = Inr ch"
    and rest: "count_activated g locs (if ch = CHR ''S'' then k + 1 else k) = Inr a"
    by (auto split: sum.splits)
  have "in_grid g (r, c)" using ch grid_get_Inr_iff [of g r c] by auto
  then show ?case
    using Cons.IH [OF rest] p ch by (auto simp: num_switches_on_def)
qed

lemma num_switches_on_cong:
  "\<forall>p \<in> set locs. grid_get g' (fst p) (snd p) = grid_get g (fst p) (snd p) \<Longrightarrow>
   num_switches_on g' locs = num_switches_on g locs"
  unfolding num_switches_on_def
  by (rule arg_cong [where f = length], rule filter_cong) auto

lemma num_switches_on_le: "num_switches_on g locs \<le> length locs"
  by (simp add: num_switches_on_def)


subsection \<open>The constructor's scan\<close>

lemma dict_set_fresh: "k \<notin> fst ` set d \<Longrightarrow> dict_set d k v = d @ [(k, v)]"
  by (induction d) auto

lemma row_cells_keys:
  "map fst (map (\<lambda>(col, ch). ((row, col), ch)) (enumerate 0 r)) = map (Pair row) [0..<length r]"
proof -
  have "map fst (map (\<lambda>(col, ch). ((row, col), ch)) xs) = map (Pair row) (map fst xs)"
    for xs :: "(nat \<times> 'x) list"
    by (induction xs) auto
  from this [of "enumerate 0 r"] show ?thesis by simp
qed

lemma row_cells_set:
  "set (map (\<lambda>(col, ch). ((row, col), ch)) (enumerate 0 r)) = {((row, c), r ! c) | c. c < length r}"
  by (auto simp: in_set_enumerate_eq image_iff)

lemma cells_from_set:
  "set (cells_from n g) = {((n + i, c), g ! i ! c) | i c. i < length g \<and> c < length (g ! i)}"
proof (induction g arbitrary: n)
  case Nil
  show ?case by (simp add: cells_from_def)
next
  case (Cons r g)
  have step: "cells_from n (r # g) =
      map (\<lambda>(col, ch). ((n, col), ch)) (enumerate 0 r) @ cells_from (Suc n) g"
    by (simp add: cells_from_def)
  show ?case
    unfolding step set_append row_cells_set Cons.IH
  proof (intro equalityI subsetI)
    fix x
    assume "x \<in> {((n, c), r ! c) |c. c < length r} \<union>
             {((Suc n + i, c), g ! i ! c) |i c. i < length g \<and> c < length (g ! i)}"
    then consider c where "x = ((n, c), r ! c)" "c < length r"
      | i c where "x = ((Suc n + i, c), g ! i ! c)" "i < length g" "c < length (g ! i)"
      by blast
    then show "x \<in> {((n + i, c), (r # g) ! i ! c) |i c. i < length (r # g) \<and> c < length ((r # g) ! i)}"
    proof cases
      case 1
      then show ?thesis by (intro CollectI exI [of _ 0] exI [of _ c]) simp
    next
      case 2
      then show ?thesis by (intro CollectI exI [of _ "Suc i"] exI [of _ c]) simp
    qed
  next
    fix x
    assume "x \<in> {((n + i, c), (r # g) ! i ! c) |i c. i < length (r # g) \<and> c < length ((r # g) ! i)}"
    then obtain i c where x: "x = ((n + i, c), (r # g) ! i ! c)"
      and i: "i < length (r # g)" and c: "c < length ((r # g) ! i)" by blast
    show "x \<in> {((n, c), r ! c) |c. c < length r} \<union>
             {((Suc n + i, c), g ! i ! c) |i c. i < length g \<and> c < length (g ! i)}"
    proof (cases i)
      case 0
      with x c show ?thesis by simp
    next
      case (Suc j)
      with x i c have "x = ((Suc n + j, c), g ! j ! c) \<and> j < length g \<and> c < length (g ! j)"
        by simp
      then show ?thesis by blast
    qed
  qed
qed

lemma cells_from_distinct: "distinct (map fst (cells_from n g))"
proof (induction g arbitrary: n)
  case Nil
  show ?case by (simp add: cells_from_def)
next
  case (Cons r g)
  have step: "cells_from n (r # g) =
      map (\<lambda>(col, ch). ((n, col), ch)) (enumerate 0 r) @ cells_from (Suc n) g"
    by (simp add: cells_from_def)
  have d1: "distinct (map (Pair n) [0..<length r])"
    by (simp add: distinct_map inj_on_def)
  have disj: "set (map (Pair n) [0..<length r]) \<inter> fst ` set (cells_from (Suc n) g) = {}"
    unfolding cells_from_set by auto
  show ?case
    unfolding step map_append row_cells_keys
    using d1 disj Cons.IH [of "Suc n"] by simp
qed

lemma cells_of_from: "cells_of g = cells_from 0 g"
  by (simp add: cells_of_def cells_from_def)

lemma cells_of_set:
  "set (cells_of g) = {((r, c), g ! r ! c) | r c. r < length g \<and> c < length (g ! r)}"
  using cells_from_set [of 0 g] by (simp add: cells_of_from)

lemma cells_of_distinct: "distinct (map fst (cells_of g))"
  by (simp add: cells_of_from cells_from_distinct)

lemma cells_of_in_grid: "(p, ch) \<in> set (cells_of g) \<Longrightarrow> in_grid g p"
  by (auto simp: cells_of_set in_grid_def)

lemma fold_scan_cell:
  "distinct (map fst cs) \<Longrightarrow> fst ` set cs \<inter> fst ` set (initial_map_state e) = {} \<Longrightarrow>
   fold scan_cell cs e =
     e\<lparr>initial_map_state :=
         initial_map_state e @ filter (\<lambda>x. is_switch (snd x) \<or> is_door (snd x)) cs,
       switch_locations := switch_locations e @ map fst (filter (\<lambda>x. is_switch (snd x)) cs),
       door_locations := door_locations e @ map fst (filter (\<lambda>x. is_door (snd x)) cs),
       switch_count := switch_count e + int (length (filter (\<lambda>x. is_switch (snd x)) cs))\<rparr>"
proof (induction cs arbitrary: e)
  case Nil
  show ?case by simp
next
  case (Cons x cs)
  obtain p ch where x: "x = (p, ch)" by (cases x)
  have fresh: "p \<notin> fst ` set (initial_map_state e)"
    using Cons.prems(2) x by auto
  have one: "scan_cell (p, ch) e =
     e\<lparr>initial_map_state :=
         initial_map_state e @ (if is_switch ch \<or> is_door ch then [(p, ch)] else []),
       switch_locations := switch_locations e @ (if is_switch ch then [p] else []),
       door_locations := door_locations e @ (if is_door ch then [p] else []),
       switch_count := switch_count e + (if is_switch ch then 1 else 0)\<rparr>"
    unfolding scan_cell_def Let_def
    by (auto simp: is_switch_def is_door_def dict_set_fresh [OF fresh])
  have d: "distinct (map fst cs)" using Cons.prems(1) by simp
  have disj: "fst ` set cs \<inter> fst ` set (initial_map_state (scan_cell x e)) = {}"
    using Cons.prems unfolding x one by (auto simp: image_iff)
  show ?case
    unfolding fold_Cons comp_def Cons.IH [OF d disj]
    unfolding x one by auto
qed

lemma init_fields:
  "initial_map_state (init bm wm ags) =
     filter (\<lambda>x. is_switch (snd x) \<or> is_door (snd x)) (cells_of bm)"
  "switch_locations (init bm wm ags) = map fst (filter (\<lambda>x. is_switch (snd x)) (cells_of bm))"
  "door_locations (init bm wm ags) = map fst (filter (\<lambda>x. is_door (snd x)) (cells_of bm))"
  "switch_count (init bm wm ags) = int (length (filter (\<lambda>x. is_switch (snd x)) (cells_of bm)))"
  "world_map (init bm wm ags) = wm"
  "base_map (init bm wm ags) = bm"
  "agents (init bm wm ags) = ags"
  "prev_activated_switch_count (init bm wm ags) = 0"
  "timestep (init bm wm ags) = 0"
  "total_pulled_on (init bm wm ags) = 0"
  "total_pulled_off (init bm wm ags) = 0"
  "timestep_first_switch_pull (init bm wm ags) = NaN"
  "timestep_last_switch_pull (init bm wm ags) = NaN"
  "switches_on_at_termination (init bm wm ags) = 0"
  "total_successes (init bm wm ags) = 0"
  unfolding init_def
  by (subst fold_scan_cell; simp add: cells_of_distinct)+


subsection \<open>What each method does to the state\<close>

lemma custom_reset_Inr:
  assumes "custom_reset e = Inr e'"
  shows "\<exists>g. restore_cells (world_map e) (initial_map_state e) = Inr g \<and>
             e' = e\<lparr>world_map := g, prev_activated_switch_count := 0, timestep := 0,
                    total_pulled_on := 0, total_pulled_off := 0,
                    timestep_first_switch_pull := NaN, timestep_last_switch_pull := NaN,
                    switches_on_at_termination := 0, total_successes := 0\<rparr>"
  using assms unfolding custom_reset_def by (auto split: sum.splits)

lemma agents_unchanged:
  "map (\<lambda>(a, reward_this_turn). (a, reward_this_turn + real_of_int (d * GIVE_EXTERNAL_SWITCH_REWARD))) ags = ags"
  by (induction ags) (auto simp: GIVE_EXTERNAL_SWITCH_REWARD_def)

lemma custom_map_update_alt:
  "custom_map_update e =
     (case count_activated (world_map e) (switch_locations e) 0 of
        Inl err \<Rightarrow> Inl err
      | Inr a \<Rightarrow>
         (case update_map (world_map e)
                 (map (\<lambda>(row, col). (row, col, if a = switch_count e then CHR ''d'' else CHR ''D''))
                      (door_locations e)) of
            Inl err \<Rightarrow> Inl err
          | Inr g \<Rightarrow>
              Inr (if a \<noteq> prev_activated_switch_count e
                   then e\<lparr>world_map := g, prev_activated_switch_count := a,
                          timestep_last_switch_pull := Num (timestep e),
                          timestep_first_switch_pull :=
                            (if timestep_first_switch_pull e = NaN then Num (timestep e)
                             else timestep_first_switch_pull e),
                          total_pulled_on :=
                            total_pulled_on e + max 0 (a - prev_activated_switch_count e),
                          total_pulled_off :=
                            total_pulled_off e + max 0 (prev_activated_switch_count e - a),
                          switches_on_at_termination := a\<rparr>
                   else e\<lparr>world_map := g, prev_activated_switch_count := a\<rparr>)))"
  unfolding custom_map_update_def Let_def agents_unchanged
  by (simp split: sum.splits)

lemma custom_map_update_E:
  assumes "custom_map_update e = Inr e'"
  obtains a g where
    "count_activated (world_map e) (switch_locations e) 0 = Inr a"
    "update_map (world_map e)
       (map (\<lambda>(row, col). (row, col, if a = switch_count e then CHR ''d'' else CHR ''D''))
            (door_locations e)) = Inr g"
    "world_map e' = g"
    "prev_activated_switch_count e' = a"
    "timestep_last_switch_pull e' =
       (if a \<noteq> prev_activated_switch_count e then Num (timestep e)
        else timestep_last_switch_pull e)"
    "timestep_first_switch_pull e' =
       (if a \<noteq> prev_activated_switch_count e \<and> timestep_first_switch_pull e = NaN
        then Num (timestep e) else timestep_first_switch_pull e)"
    "total_pulled_on e' = total_pulled_on e + max 0 (a - prev_activated_switch_count e)"
    "total_pulled_off e' = total_pulled_off e + max 0 (- (a - prev_activated_switch_count e))"
    "switches_on_at_termination e' =
       (if a \<noteq> prev_activated_switch_count e then a else switches_on_at_termination e)"
    "switch_locations e' = switch_locations e"
    "door_locations e' = door_locations e"
    "initial_map_state e' = initial_map_state e"
    "switch_count e' = switch_count e"
    "timestep e' = timestep e"
    "total_successes e' = total_successes e"
    "base_map e' = base_map e"
    "agents e' = agents e"
proof -
  from assms obtain a where a: "count_activated (world_map e) (switch_locations e) 0 = Inr a"
    unfolding custom_map_update_alt by (cases "count_activated (world_map e) (switch_locations e) 0") auto
  from assms a obtain g where g: "update_map (world_map e)
       (map (\<lambda>(row, col). (row, col, if a = switch_count e then CHR ''d'' else CHR ''D''))
            (door_locations e)) = Inr g"
    unfolding custom_map_update_alt
    by (cases "update_map (world_map e)
       (map (\<lambda>(row, col). (row, col, if a = switch_count e then CHR ''d'' else CHR ''D''))
            (door_locations e))") auto
  from assms have e': "e' = (if a \<noteq> prev_activated_switch_count e
           then e\<lparr>world_map := g, prev_activated_switch_count := a,
                  timestep_last_switch_pull := Num (timestep e),
                  timestep_first_switch_pull :=
                    (if timestep_first_switch_pull e = NaN then Num (timestep e)
                     else timestep_first_switch_pull e),
                  total_pulled_on :=
                    total_pulled_on e + max 0 (a - prev_activated_switch_count e),
                  total_pulled_off :=
                    total_pulled_off e + max 0 (prev_activated_switch_count e - a),
                  switches_on_at_termination := a\<rparr>
           else e\<lparr>world_map := g, prev_activated_switch_count := a\<rparr>)"
    by (simp add: custom_map_update_alt a g)
  show thesis
    by (rule that [of a g]) (simp_all add: a g e')
qed

lemma custom_map_update_total:
  assumes "\<forall>p \<in> set (switch_locations e). in_grid (world_map e) p"
    and "\<forall>p \<in> set (door_locations e). in_grid (world_map e) p"
  shows "\<exists>e'. custom_map_update e = Inr e'"
proof -
  let ?a = "0 + int (num_switches_on (world_map e) (switch_locations e))"
  have c: "count_activated (world_map e) (switch_locations e) 0 = Inr ?a"
    by (rule count_activated_eq [OF assms(1)])
  have "\<exists>g. update_map (world_map e)
       (map (\<lambda>(row, col). (row, col, ch)) (door_locations e)) = Inr g" for ch
    by (rule update_map_total) (use assms(2) in \<open>auto split: prod.splits\<close>)
  then obtain g where "update_map (world_map e)
       (map (\<lambda>(row, col). (row, col, if ?a = switch_count e then CHR ''d'' else CHR ''D''))
            (door_locations e)) = Inr g"
    by blast
  then show ?thesis
    unfolding custom_map_update_alt c by simp
qed

lemma step_E:
  assumes "step e actions turn = Inr (e', out)"
  obtains e1 first_agent act rest r where
    "custom_map_update
       (e\<lparr>world_map := grid_after_actions turn, agents := agents_after_actions turn\<rparr>) = Inr e1"
    "actions = (first_agent, act) # rest"
    "engine_rewards turn first_agent = Some r"
    "e' = e1\<lparr>total_successes := total_successes e1 + (if r > success_threshold then 1 else 0),
             timestep := timestep e1 + 1\<rparr>"
    "out = (engine_observations turn, engine_rewards turn, engine_dones turn,
            engine_info turn ++
              [first_agent \<mapsto>
                 create_extra_info_dict
                   (e1\<lparr>total_successes :=
                         total_successes e1 + (if r > success_threshold then 1 else 0)\<rparr>)])"
proof -
  let ?e0 = "e\<lparr>world_map := grid_after_actions turn, agents := agents_after_actions turn\<rparr>"
  from assms obtain e1 where e1: "custom_map_update ?e0 = Inr e1"
    unfolding step_def MapEnv_step_def by (cases "custom_map_update ?e0") auto
  from assms obtain first_agent act rest where acts: "actions = (first_agent, act) # rest"
    unfolding step_def MapEnv_step_def e1 by (cases actions) auto
  from assms obtain r where r: "engine_rewards turn first_agent = Some r"
    unfolding step_def MapEnv_step_def e1 acts
    by (cases "engine_rewards turn first_agent") auto
  from assms have "e' = e1\<lparr>total_successes := total_successes e1 + (if r > success_threshold then 1 else 0),
             timestep := timestep e1 + 1\<rparr> \<and>
    out = (engine_observations turn, engine_rewards turn, engine_dones turn,
            engine_info turn ++
              [first_agent \<mapsto>
                 create_extra_info_dict
                   (e1\<lparr>total_successes :=
                         total_successes e1 + (if r > success_threshold then 1 else 0)\<rparr>)])"
    unfolding step_def MapEnv_step_def e1 acts
    by (auto simp: r Let_def)
  then show thesis
    using that [OF e1 acts r] by blast
qed

subsection \<open>Invariants of the reachable states\<close>

lemma switch_not_door: "is_switch ch \<Longrightarrow> \<not> is_door ch"
  by (auto simp: is_switch_def is_door_def)

lemma cells_of_unique: "(p, ch) \<in> set (cells_of g) \<Longrightarrow> (p, ch') \<in> set (cells_of g) \<Longrightarrow> ch = ch'"
  by (auto simp: cells_of_set)

lemma registry_ok_init:
  assumes "same_shape bm wm"
  shows "registry_ok (init bm wm ags)"
  unfolding registry_ok_def init_fields using assms by simp

lemma metrics_ok_init: "metrics_ok (init bm wm ags)"
  by (simp add: metrics_ok_def init_fields)

lemma registry_distinct:
  assumes "registry_ok e"
  shows "distinct (map fst (initial_map_state e))"
proof -
  have "distinct (map fst (filter (\<lambda>x. is_switch (snd x) \<or> is_door (snd x))
                             (cells_of (base_map e))))"
    by (rule distinct_map_filter) (rule cells_of_distinct)
  then show ?thesis using assms by (simp add: registry_ok_def)
qed

lemma registry_disjoint:
  assumes "registry_ok e"
  shows "set (switch_locations e) \<inter> set (door_locations e) = {}"
proof -
  have "set (map fst (filter (\<lambda>x. is_switch (snd x)) (cells_of (base_map e)))) \<inter>
        set (map fst (filter (\<lambda>x. is_door (snd x)) (cells_of (base_map e)))) = {}"
    using cells_of_unique [of _ _ "base_map e"] switch_not_door by fastforce
  then show ?thesis using assms by (simp add: registry_ok_def)
qed

lemma registry_in_grid:
  assumes "registry_ok e"
  shows "\<forall>p \<in> set (switch_locations e). in_grid (world_map e) p"
    and "\<forall>p \<in> set (door_locations e). in_grid (world_map e) p"
    and "\<forall>p \<in> set (map fst (initial_map_state e)). in_grid (world_map e) p"
proof -
  have shape: "same_shape (base_map e) (world_map e)"
    using assms by (simp add: registry_ok_def)
  have grid: "in_grid (world_map e) p" if "(p, ch) \<in> set (cells_of (base_map e))" for p ch
    using cells_of_in_grid [OF that] same_shape_in_grid [OF shape] by simp
  have sw: "switch_locations e =
              map fst (filter (\<lambda>x. is_switch (snd x)) (cells_of (base_map e)))"
    and dr: "door_locations e = map fst (filter (\<lambda>x. is_door (snd x)) (cells_of (base_map e)))"
    and ims: "initial_map_state e =
       filter (\<lambda>x. is_switch (snd x) \<or> is_door (snd x)) (cells_of (base_map e))"
    using assms by (simp_all add: registry_ok_def)
  show "\<forall>p \<in> set (switch_locations e). in_grid (world_map e) p"
    unfolding sw using grid by auto
  show "\<forall>p \<in> set (door_locations e). in_grid (world_map e) p"
    unfolding dr using grid by auto
  show "\<forall>p \<in> set (map fst (initial_map_state e)). in_grid (world_map e) p"
    unfolding ims using grid by auto
qed

lemma registry_ok_shape:
  assumes "registry_ok e" and "same_shape (world_map e) g"
    and "switch_locations e' = switch_locations e" and "door_locations e' = door_locations e"
    and "initial_map_state e' = initial_map_state e" and "switch_count e' = switch_count e"
    and "world_map e' = g" and "base_map e' = base_map e"
  shows "registry_ok e'"
proof -
  have "same_shape (base_map e) g"
    using assms(1,2) by (auto simp: registry_ok_def intro: same_shape_trans)
  then show ?thesis
    using assms(1) unfolding registry_ok_def assms(3-8) by simp
qed

lemma registry_ok_reset: "registry_ok e \<Longrightarrow> custom_reset e = Inr e' \<Longrightarrow> registry_ok e'"
proof -
  assume ok: "registry_ok e" and r: "custom_reset e = Inr e'"
  from custom_reset_Inr [OF r] obtain g where
    g: "restore_cells (world_map e) (initial_map_state e) = Inr g" and e': "e' = e\<lparr>world_map := g, prev_activated_switch_count := 0, timestep := 0,
                    total_pulled_on := 0, total_pulled_off := 0,
                    timestep_first_switch_pull := NaN, timestep_last_switch_pull := NaN,
                    switches_on_at_termination := 0, total_successes := 0\<rparr>" by (elim exE conjE)
  show ?thesis
    by (rule registry_ok_shape [OF ok restore_cells_shape [OF g]]) (simp_all add: e')
qed

lemma registry_ok_update: "registry_ok e \<Longrightarrow> custom_map_update e = Inr e' \<Longrightarrow> registry_ok e'"
proof -
  assume ok: "registry_ok e" and r: "custom_map_update e = Inr e'"
  from r obtain a g where
    g: "update_map (world_map e)
       (map (\<lambda>(row, col). (row, col, if a = switch_count e then CHR ''d'' else CHR ''D''))
            (door_locations e)) = Inr g"
    and f: "world_map e' = g" "switch_locations e' = switch_locations e"
      "door_locations e' = door_locations e" "initial_map_state e' = initial_map_state e"
      "switch_count e' = switch_count e" "base_map e' = base_map e"
    by (rule custom_map_update_E)
  show ?thesis
    by (rule registry_ok_shape [OF ok update_map_shape [OF g]]) (simp_all add: f)
qed

lemma metrics_ok_reset: "custom_reset e = Inr e' \<Longrightarrow> metrics_ok e'"
  using custom_reset_Inr [of e e'] by (auto simp: metrics_ok_def)

lemma metrics_ok_update: "metrics_ok e \<Longrightarrow> custom_map_update e = Inr e' \<Longrightarrow> metrics_ok e'"
proof -
  assume ok: "metrics_ok e" and r: "custom_map_update e = Inr e'"
  from r obtain a where
    f: "prev_activated_switch_count e' = a"
    "timestep_last_switch_pull e' =
       (if a \<noteq> prev_activated_switch_count e then Num (timestep e)
        else timestep_last_switch_pull e)"
    "timestep_first_switch_pull e' =
       (if a \<noteq> prev_activated_switch_count e \<and> timestep_first_switch_pull e = NaN
        then Num (timestep e) else timestep_first_switch_pull e)"
    "total_pulled_on e' = total_pulled_on e + max 0 (a - prev_activated_switch_count e)"
    "total_pulled_off e' = total_pulled_off e + max 0 (- (a - prev_activated_switch_count e))"
    "switches_on_at_termination e' =
       (if a \<noteq> prev_activated_switch_count e then a else switches_on_at_termination e)"
    by (rule custom_map_update_E)
  have "max 0 (a - p) - max 0 (- (a - p)) = a - p" for p :: int
    by (simp add: max_def)
  with ok show ?thesis
    unfolding metrics_ok_def f by (auto simp: algebra_simps)
qed

lemma registry_ok_engine:
  "registry_ok e \<Longrightarrow> same_shape (world_map e) g \<Longrightarrow>
   registry_ok (e\<lparr>world_map := g, agents := ags\<rparr>)"
  by (auto simp add: registry_ok_def intro: same_shape_trans)

lemma metrics_ok_engine: "metrics_ok e \<Longrightarrow> metrics_ok (e\<lparr>world_map := g, agents := ags\<rparr>)"
  by (simp add: metrics_ok_def)

lemma registry_ok_success:
  "registry_ok e \<Longrightarrow> registry_ok (e\<lparr>total_successes := total_successes e + 1\<rparr>)"
  by (simp add: registry_ok_def)

lemma metrics_ok_success:
  "metrics_ok e \<Longrightarrow> metrics_ok (e\<lparr>total_successes := total_successes e + 1\<rparr>)"
  by (simp add: metrics_ok_def)

lemma registry_ok_tick: "registry_ok e \<Longrightarrow> registry_ok (e\<lparr>timestep := timestep e + 1\<rparr>)"
  by (simp add: registry_ok_def)

lemma metrics_ok_tick: "metrics_ok e \<Longrightarrow> metrics_ok (e\<lparr>timestep := timestep e + 1\<rparr>)"
  by (simp add: metrics_ok_def)

lemma reachable_inv: "reachable e \<Longrightarrow> registry_ok e \<and> metrics_ok e"
proof (induction rule: reachable.induct)
  case (r_init bm wm ags)
  show ?case
    using registry_ok_init [OF r_init] metrics_ok_init by blast
next
  case (r_engine e g ags)
  then show ?case
    using registry_ok_engine [where e = e and g = g and ags = ags]
      metrics_ok_engine [where e = e and g = g and ags = ags] by blast
next
  case (r_reset e e')
  show ?case
    using registry_ok_reset [of e e'] metrics_ok_reset [of e e'] r_reset by blast
next
  case (r_update e e')
  show ?case
    using registry_ok_update [of e e'] metrics_ok_update [of e e'] r_update by blast
next
  case (r_success e)
  then show ?case
    using registry_ok_success [of e] metrics_ok_success [of e] by blast
next
  case (r_tick e)
  then show ?case
    using registry_ok_tick [of e] metrics_ok_tick [of e] by blast
qed

lemma reachable_step:
  assumes "reachable e" and "same_shape (world_map e) (grid_after_actions turn)"
    and "step e actions turn = Inr (e', out)"
  shows "reachable e'"
proof -
  from assms(3) obtain e1 r where
    u: "custom_map_update
       (e\<lparr>world_map := grid_after_actions turn, agents := agents_after_actions turn\<rparr>) = Inr e1"
    and e': "e' = e1\<lparr>total_successes := total_successes e1 + (if r > success_threshold then 1 else 0),
             timestep := timestep e1 + 1\<rparr>"
    by (rule step_E)
  have r1: "reachable e1"
    using r_update [OF r_engine [OF assms(1,2)] u] .
  show ?thesis
  proof (cases "r > success_threshold")
    case True
    then show ?thesis using r_tick [OF r_success [OF r1]] e' by simp
  next
    case False
    then have "e' = e1\<lparr>timestep := timestep e1 + 1\<rparr>" using e' by simp
    then show ?thesis using r_tick [OF r1] by simp
  qed
qed

lemma registry_ok_total:
  assumes "registry_ok e"
  shows "\<exists>e'. custom_map_update e = Inr e'" and "\<exists>e'. custom_reset e = Inr e'"
proof -
  show "\<exists>e'. custom_map_update e = Inr e'"
    using registry_in_grid [OF assms] by (intro custom_map_update_total)
  have "\<exists>g. restore_cells (world_map e) (initial_map_state e) = Inr g"
    using registry_in_grid [OF assms] by (intro restore_cells_total)
  then show "\<exists>e'. custom_reset e = Inr e'"
    by (auto simp: custom_reset_def)
qed

subsection \<open>One run of the coordination state machine\<close>

lemma update_activated:
  assumes "custom_map_update e = Inr e'"
  shows "prev_activated_switch_count e' = activated e"
proof -
  from assms obtain a where a: "count_activated (world_map e) (switch_locations e) 0 = Inr a"
    and p: "prev_activated_switch_count e' = a"
    by (rule custom_map_update_E)
  from count_activated_Inr [OF a] p show ?thesis by (simp add: activated_def)
qed

lemma update_count_activated:
  assumes "custom_map_update e = Inr e'"
  shows "count_activated (world_map e) (switch_locations e) 0 = Inr (activated e)"
proof -
  from assms obtain a where a: "count_activated (world_map e) (switch_locations e) 0 = Inr a"
    by (rule custom_map_update_E)
  from count_activated_Inr [OF a] a show ?thesis by (simp add: activated_def)
qed

lemma update_doors:
  assumes "custom_map_update e = Inr e'"
  shows "update_map (world_map e)
           (map (\<lambda>(row, col). (row, col, if activated e = switch_count e then CHR ''d'' else CHR ''D''))
                (door_locations e)) = Inr (world_map e')"
proof -
  from assms obtain a g where a: "count_activated (world_map e) (switch_locations e) 0 = Inr a"
    and g: "update_map (world_map e)
       (map (\<lambda>(row, col). (row, col, if a = switch_count e then CHR ''d'' else CHR ''D''))
            (door_locations e)) = Inr g"
    and w: "world_map e' = g"
    by (rule custom_map_update_E)
  have "a = activated e"
    using count_activated_Inr [OF a] by (simp add: activated_def)
  with g w show ?thesis by simp
qed

lemma update_frame:
  assumes "custom_map_update e = Inr e'" and "(r, c) \<notin> set (door_locations e)"
  shows "grid_get (world_map e') r c = grid_get (world_map e) r c"
proof (rule update_map_frame [OF update_doors [OF assms(1)]])
  show "(r, c) \<notin> (\<lambda>u. (fst u, fst (snd u))) `
          set (map (\<lambda>(row, col). (row, col, if activated e = switch_count e then CHR ''d'' else CHR ''D''))
                 (door_locations e))"
    using assms(2) by (auto simp: image_iff split: prod.splits)
qed

lemma update_keeps_switches:
  assumes "registry_ok e" and "custom_map_update e = Inr e'"
  shows "\<forall>p \<in> set (switch_locations e).
           grid_get (world_map e') (fst p) (snd p) = grid_get (world_map e) (fst p) (snd p)"
proof
  fix p assume "p \<in> set (switch_locations e)"
  then have "(fst p, snd p) \<notin> set (door_locations e)"
    using registry_disjoint [OF assms(1)] by auto
  from update_frame [OF assms(2) this]
  show "grid_get (world_map e') (fst p) (snd p) = grid_get (world_map e) (fst p) (snd p)" .
qed

lemma update_keeps_activated:
  assumes "registry_ok e" and "custom_map_update e = Inr e'"
  shows "activated e' = activated e"
proof -
  from assms(2) have sw: "switch_locations e' = switch_locations e"
    by (rule custom_map_update_E)
  show ?thesis
    unfolding activated_def sw
    using num_switches_on_cong [OF update_keeps_switches [OF assms]] by simp
qed

text \<open>
  C1. In every reachable state \<open>custom_map_update\<close> returns, and afterwards every
  registered door coordinate holds the open-door symbol \<open>d\<close> if the number of activated
  switches equals \<open>switch_count\<close>, and the closed-door symbol \<open>D\<close> otherwise. All door
  coordinates receive the same symbol in the one batch, so no state after an update has
  some doors open and others closed. The update leaves the activation count as it was.
\<close>

theorem doors_toggle_together:
  assumes "reachable e"
  shows "\<exists>e'. custom_map_update e = Inr e' \<and>
           door_locations e' = door_locations e \<and>
           activated e' = activated e \<and>
           (\<forall>p \<in> set (door_locations e').
              grid_get (world_map e') (fst p) (snd p) =
                Inr (if activated e = switch_count e then CHR ''d'' else CHR ''D''))"
proof -
  have ok: "registry_ok e" using reachable_inv [OF assms] by simp
  from registry_ok_total(1) [OF ok] obtain e' where u: "custom_map_update e = Inr e'" by blast
  from u have d: "door_locations e' = door_locations e" by (rule custom_map_update_E)
  have "grid_get (world_map e') (fst p) (snd p) =
          Inr (if activated e = switch_count e then CHR ''d'' else CHR ''D'')"
    if "p \<in> set (door_locations e)" for p
    using update_map_written [OF update_doors [OF u], of "fst p" "snd p"] that by simp
  with u d update_keeps_activated [OF ok u] show ?thesis by simp
qed

text \<open>
  C9. \<open>custom_map_update\<close> changes the grid by one batch of writes whose coordinates are
  the registered door coordinates. The grid keeps its shape, every cell outside
  \<open>door_locations\<close> reads as before, and in a reachable state every switch cell reads as
  before.
\<close>

theorem custom_map_update_writes_doors_only:
  assumes "custom_map_update e = Inr e'"
  shows "(\<exists>ch. update_map (world_map e) (map (\<lambda>(row, col). (row, col, ch)) (door_locations e)) =
               Inr (world_map e')) \<and>
         same_shape (world_map e) (world_map e') \<and>
         (\<forall>r c. (r, c) \<notin> set (door_locations e) \<longrightarrow>
                grid_get (world_map e') r c = grid_get (world_map e) r c) \<and>
         (reachable e \<longrightarrow>
            (\<forall>p \<in> set (switch_locations e).
               grid_get (world_map e') (fst p) (snd p) = grid_get (world_map e) (fst p) (snd p)))"
proof (intro conjI)
  show "\<exists>ch. update_map (world_map e) (map (\<lambda>(row, col). (row, col, ch)) (door_locations e)) =
               Inr (world_map e')"
    using update_doors [OF assms] by blast
  show "same_shape (world_map e) (world_map e')"
    using update_map_shape [OF update_doors [OF assms]] .
  show "\<forall>r c. (r, c) \<notin> set (door_locations e) \<longrightarrow>
                grid_get (world_map e') r c = grid_get (world_map e) r c"
    using update_frame [OF assms] by blast
  show "reachable e \<longrightarrow>
            (\<forall>p \<in> set (switch_locations e).
               grid_get (world_map e') (fst p) (snd p) = grid_get (world_map e) (fst p) (snd p))"
    using update_keeps_switches [OF _ assms] reachable_inv [of e] by blast
qed

text \<open>
  C4. In every reachable state, after \<open>custom_map_update\<close> the field
  \<open>switches_on_at_termination\<close> equals the activation count that the update has just
  computed, which is the number of switch cells holding the on symbol in the grid it
  leaves behind; the same holds after every \<open>step\<close>.
\<close>

theorem termination_snapshot:
  assumes "reachable e"
  shows "(custom_map_update e = Inr e' \<longrightarrow>
            switches_on_at_termination e' = activated e \<and>
            switches_on_at_termination e' = activated e') \<and>
         (same_shape (world_map e) (grid_after_actions turn) \<longrightarrow>
          step e actions turn = Inr (e'', out) \<longrightarrow>
            switches_on_at_termination e'' = activated e'')"
proof -
  have snap: "switches_on_at_termination e2 = activated e1 \<and>
              switches_on_at_termination e2 = activated e2"
    if r: "reachable e1" and u: "custom_map_update e1 = Inr e2" for e1 e2
  proof -
    have ok: "registry_ok e1" and m: "metrics_ok e1" using reachable_inv [OF r] by simp_all
    from u obtain a where
      p: "prev_activated_switch_count e2 = a"
      and s: "switches_on_at_termination e2 =
       (if a \<noteq> prev_activated_switch_count e1 then a else switches_on_at_termination e1)"
      by (rule custom_map_update_E)
    have "switches_on_at_termination e2 = a"
      using s m by (simp add: metrics_ok_def)
    then show ?thesis
      using p update_activated [OF u] update_keeps_activated [OF ok u] by simp
  qed
  have "switches_on_at_termination e'' = activated e''"
    if sh: "same_shape (world_map e) (grid_after_actions turn)"
      and st: "step e actions turn = Inr (e'', out)"
  proof -
    from st obtain e1 r where
      u: "custom_map_update
         (e\<lparr>world_map := grid_after_actions turn, agents := agents_after_actions turn\<rparr>) = Inr e1"
      and e'': "e'' = e1\<lparr>total_successes := total_successes e1 + (if r > success_threshold then 1 else 0),
             timestep := timestep e1 + 1\<rparr>"
      by (rule step_E)
    have "switches_on_at_termination e1 = activated e1"
      using snap [OF r_engine [OF assms sh] u] by simp
    then show ?thesis by (simp add: e'' activated_def)
  qed
  with snap [OF assms] show ?thesis by blast
qed

text \<open>
  C10. In every reachable state \<open>total_pulled_on - total_pulled_off\<close> equals
  \<open>prev_activated_switch_count\<close>. After \<open>custom_map_update\<close> the latter is the activation
  count just computed, so the totals balance to the current number of activated switches;
  \<open>custom_reset\<close> starts all three at 0.
\<close>

theorem pulled_totals_balance:
  assumes "reachable e"
  shows "total_pulled_on e - total_pulled_off e = prev_activated_switch_count e \<and>
         (custom_map_update e = Inr e' \<longrightarrow>
            prev_activated_switch_count e' = activated e \<and>
            total_pulled_on e' - total_pulled_off e' = activated e) \<and>
         (custom_reset e = Inr e0 \<longrightarrow>
            total_pulled_on e0 = 0 \<and> total_pulled_off e0 = 0 \<and>
            prev_activated_switch_count e0 = 0)"
proof (intro conjI impI)
  show "total_pulled_on e - total_pulled_off e = prev_activated_switch_count e"
    using reachable_inv [OF assms] by (simp add: metrics_ok_def)
next
  assume u: "custom_map_update e = Inr e'"
  show "prev_activated_switch_count e' = activated e" by (rule update_activated [OF u])
  have "metrics_ok e'"
    using reachable_inv [OF r_update [OF assms u]] by simp
  then show "total_pulled_on e' - total_pulled_off e' = activated e"
    using update_activated [OF u] by (simp add: metrics_ok_def)
next
  assume r: "custom_reset e = Inr e0"
  from custom_reset_Inr [OF r]
  show "total_pulled_on e0 = 0" "total_pulled_off e0 = 0" "prev_activated_switch_count e0 = 0"
    by auto
qed

text \<open>
  C5. In every reachable state the two pull-timestep fields are unset together, and
  \<open>custom_reset\<close> unsets both. An update whose activation delta is zero leaves both as they
  are. An update whose delta is not zero sets \<open>timestep_last_switch_pull\<close> to the current
  timestep, and sets \<open>timestep_first_switch_pull\<close> to it only if that field was unset; a
  set field \<open>Num t\<close> differs from the sentinel also when \<open>t = 0\<close>.
\<close>

theorem pull_timesteps:
  assumes "reachable e"
  shows "(timestep_first_switch_pull e = NaN \<longleftrightarrow> timestep_last_switch_pull e = NaN) \<and>
         (custom_reset e = Inr e0 \<longrightarrow>
            timestep_first_switch_pull e0 = NaN \<and> timestep_last_switch_pull e0 = NaN) \<and>
         (custom_map_update e = Inr e' \<longrightarrow>
            (activated e - prev_activated_switch_count e = 0 \<longrightarrow>
               timestep_first_switch_pull e' = timestep_first_switch_pull e \<and>
               timestep_last_switch_pull e' = timestep_last_switch_pull e) \<and>
            (activated e - prev_activated_switch_count e \<noteq> 0 \<longrightarrow>
               timestep_last_switch_pull e' = Num (timestep e) \<and>
               timestep_first_switch_pull e' =
                 (if timestep_first_switch_pull e = NaN then Num (timestep e)
                  else timestep_first_switch_pull e)))"
proof (intro conjI impI)
  show "timestep_first_switch_pull e = NaN \<longleftrightarrow> timestep_last_switch_pull e = NaN"
    using reachable_inv [OF assms] by (simp add: metrics_ok_def)
next
  assume r: "custom_reset e = Inr e0"
  from custom_reset_Inr [OF r]
  show "timestep_first_switch_pull e0 = NaN" "timestep_last_switch_pull e0 = NaN" by auto
next
  assume u: "custom_map_update e = Inr e'"
  from u obtain a where
    p: "prev_activated_switch_count e' = a"
    and l: "timestep_last_switch_pull e' =
       (if a \<noteq> prev_activated_switch_count e then Num (timestep e)
        else timestep_last_switch_pull e)"
    and f: "timestep_first_switch_pull e' =
       (if a \<noteq> prev_activated_switch_count e \<and> timestep_first_switch_pull e = NaN
        then Num (timestep e) else timestep_first_switch_pull e)"
    by (rule custom_map_update_E)
  have a: "a = activated e" using p update_activated [OF u] by simp
  {
    assume "activated e - prev_activated_switch_count e = 0"
    then show "timestep_first_switch_pull e' = timestep_first_switch_pull e"
      and "timestep_last_switch_pull e' = timestep_last_switch_pull e"
      using l f a by simp_all
  }
  {
    assume "activated e - prev_activated_switch_count e \<noteq> 0"
    then show "timestep_last_switch_pull e' = Num (timestep e)"
      and "timestep_first_switch_pull e' =
                 (if timestep_first_switch_pull e = NaN then Num (timestep e)
                  else timestep_first_switch_pull e)"
      using l f a by simp_all
  }
qed

lemma update_totals:
  assumes "custom_map_update e = Inr e'"
  shows "total_pulled_on e' =
           total_pulled_on e + max 0 (activated e - prev_activated_switch_count e)"
    and "total_pulled_off e' =
           total_pulled_off e + max 0 (- (activated e - prev_activated_switch_count e))"
proof -
  from assms obtain a where
    p: "prev_activated_switch_count e' = a"
    and on: "total_pulled_on e' = total_pulled_on e + max 0 (a - prev_activated_switch_count e)"
    and off: "total_pulled_off e' =
                total_pulled_off e + max 0 (- (a - prev_activated_switch_count e))"
    by (rule custom_map_update_E)
  have a: "a = activated e" using p update_activated [OF assms] by simp
  show "total_pulled_on e' =
           total_pulled_on e + max 0 (activated e - prev_activated_switch_count e)"
    using on a by simp
  show "total_pulled_off e' =
           total_pulled_off e + max 0 (- (activated e - prev_activated_switch_count e))"
    using off a by simp
qed

lemma step_totals:
  assumes "step e actions turn = Inr (e', out)"
  shows "total_pulled_on e \<le> total_pulled_on e' \<and> total_pulled_off e \<le> total_pulled_off e'"
proof -
  let ?e0 = "e\<lparr>world_map := grid_after_actions turn, agents := agents_after_actions turn\<rparr>"
  from assms obtain e1 r where
    u: "custom_map_update ?e0 = Inr e1"
    and e': "e' = e1\<lparr>total_successes := total_successes e1 + (if r > success_threshold then 1 else 0),
             timestep := timestep e1 + 1\<rparr>"
    by (rule step_E)
  have "total_pulled_on ?e0 \<le> total_pulled_on e1" "total_pulled_off ?e0 \<le> total_pulled_off e1"
    using update_totals [OF u] by simp_all
  then show ?thesis by (simp add: e')
qed

lemma run_steps_totals:
  "run_steps e turns = Inr e' \<Longrightarrow>
   total_pulled_on e \<le> total_pulled_on e' \<and> total_pulled_off e \<le> total_pulled_off e'"
proof (induction turns arbitrary: e)
  case Nil
  then show ?case by simp
next
  case (Cons t turns)
  obtain actions turn where t: "t = (actions, turn)" by (cases t)
  from Cons.prems t obtain e1 out where
    s: "step e actions turn = Inr (e1, out)" and r: "run_steps e1 turns = Inr e'"
    by (auto split: sum.splits)
  from step_totals [OF s] Cons.IH [OF r] show ?case by linarith
qed

text \<open>
  C8. Each \<open>custom_map_update\<close> adds \<open>max(0, delta)\<close> to \<open>total_pulled_on\<close> and
  \<open>max(0, -delta)\<close> to \<open>total_pulled_off\<close>, so neither decreases; neither decreases over
  any sequence of steps of an episode.
\<close>

theorem pulled_totals_monotone:
  "(custom_map_update e = Inr e' \<longrightarrow>
      total_pulled_on e' =
        total_pulled_on e + max 0 (activated e - prev_activated_switch_count e) \<and>
      total_pulled_off e' =
        total_pulled_off e + max 0 (- (activated e - prev_activated_switch_count e)) \<and>
      total_pulled_on e \<le> total_pulled_on e' \<and> total_pulled_off e \<le> total_pulled_off e') \<and>
   (run_steps e turns = Inr e'' \<longrightarrow>
      total_pulled_on e \<le> total_pulled_on e'' \<and> total_pulled_off e \<le> total_pulled_off e'')"
proof (intro conjI impI)
  assume u: "custom_map_update e = Inr e'"
  show on: "total_pulled_on e' =
        total_pulled_on e + max 0 (activated e - prev_activated_switch_count e)"
    and off: "total_pulled_off e' =
        total_pulled_off e + max 0 (- (activated e - prev_activated_switch_count e))"
    using update_totals [OF u] by simp_all
  show "total_pulled_on e \<le> total_pulled_on e'" using on by simp
  show "total_pulled_off e \<le> total_pulled_off e'" using off by simp
next
  assume r: "run_steps e turns = Inr e''"
  from run_steps_totals [OF r]
  show "total_pulled_on e \<le> total_pulled_on e''" "total_pulled_off e \<le> total_pulled_off e''"
    by simp_all
qed

text \<open>
  C3. The constructor makes \<open>switch_locations\<close> the list of the switch cells of the base
  layout in scan order and \<open>switch_count\<close> its length, whatever number of switches the
  caller asked for, and so they are in every reachable state. \<open>custom_reset\<close>,
  \<open>custom_map_update\<close> and \<open>step\<close> change neither of them, nor \<open>base_map\<close>. The doors that
  \<open>custom_map_update\<close> writes are open exactly if the activation count equals this scanned
  count.
\<close>

theorem switch_registry_fixed:
  assumes "reachable e"
  shows "switch_locations (init bm wm ags) =
           map fst (filter (\<lambda>x. is_switch (snd x)) (cells_of bm)) \<and>
         switch_count (init bm wm ags) = int (length (switch_locations (init bm wm ags))) \<and>
         switch_locations e =
           map fst (filter (\<lambda>x. is_switch (snd x)) (cells_of (base_map e))) \<and>
         switch_count e = int (length (switch_locations e)) \<and>
         (custom_reset e = Inr e1 \<longrightarrow>
            switch_locations e1 = switch_locations e \<and> switch_count e1 = switch_count e \<and>
            base_map e1 = base_map e) \<and>
         (custom_map_update e = Inr e2 \<longrightarrow>
            switch_locations e2 = switch_locations e \<and> switch_count e2 = switch_count e \<and>
            base_map e2 = base_map e \<and>
            (\<forall>p \<in> set (door_locations e).
               grid_get (world_map e2) (fst p) (snd p) =
                 Inr (if activated e = int (length (switch_locations e))
                      then CHR ''d'' else CHR ''D''))) \<and>
         (step e actions turn = Inr (e3, out) \<longrightarrow>
            switch_locations e3 = switch_locations e \<and> switch_count e3 = switch_count e \<and>
            base_map e3 = base_map e)"
proof (intro conjI impI)
  show "switch_locations (init bm wm ags) =
          map fst (filter (\<lambda>x. is_switch (snd x)) (cells_of bm))"
    by (simp add: init_fields)
  show "switch_count (init bm wm ags) = int (length (switch_locations (init bm wm ags)))"
    by (simp add: init_fields)
  have ok: "registry_ok e" using reachable_inv [OF assms] by simp
  show "switch_locations e = map fst (filter (\<lambda>x. is_switch (snd x)) (cells_of (base_map e)))"
    using ok by (simp add: registry_ok_def)
  show cnt: "switch_count e = int (length (switch_locations e))"
    using ok by (simp add: registry_ok_def)
  {
    assume r: "custom_reset e = Inr e1"
    from custom_reset_Inr [OF r]
    show "switch_locations e1 = switch_locations e" "switch_count e1 = switch_count e"
      "base_map e1 = base_map e"
      by auto
  }
  {
    assume u: "custom_map_update e = Inr e2"
    from u show "switch_locations e2 = switch_locations e" by (rule custom_map_update_E)
    from u show "switch_count e2 = switch_count e" by (rule custom_map_update_E)
    from u show "base_map e2 = base_map e" by (rule custom_map_update_E)
    have "grid_get (world_map e2) (fst p) (snd p) =
            Inr (if activated e = switch_count e then CHR ''d'' else CHR ''D'')"
      if "p \<in> set (door_locations e)" for p
      using update_map_written [OF update_doors [OF u], of "fst p" "snd p"] that by simp
    then show "\<forall>p \<in> set (door_locations e).
               grid_get (world_map e2) (fst p) (snd p) =
                 Inr (if activated e = int (length (switch_locations e))
                      then CHR ''d'' else CHR ''D'')"
      unfolding cnt by blast
  }
  {
    assume s: "step e actions turn = Inr (e3, out)"
    let ?e0 = "e\<lparr>world_map := grid_after_actions turn, agents := agents_after_actions turn\<rparr>"
    from s obtain e' r where
      u: "custom_map_update ?e0 = Inr e'"
      and e3: "e3 = e'\<lparr>total_successes := total_successes e' + (if r > success_threshold then 1 else 0),
             timestep := timestep e' + 1\<rparr>"
      by (rule step_E)
    from u have "switch_locations e' = switch_locations ?e0" by (rule custom_map_update_E)
    then show "switch_locations e3 = switch_locations e" by (simp add: e3)
    from u have "switch_count e' = switch_count ?e0" by (rule custom_map_update_E)
    then show "switch_count e3 = switch_count e" by (simp add: e3)
    from u have "base_map e' = base_map ?e0" by (rule custom_map_update_E)
    then show "base_map e3 = base_map e" by (simp add: e3)
  }
qed

lemma cells_of_grid_get: "(p, ch) \<in> set (cells_of g) \<Longrightarrow> grid_get g (fst p) (snd p) = Inr ch"
  by (auto simp: cells_of_set grid_get_def)

lemma registered_in_snapshot:
  assumes "registry_ok e" and "p \<in> set (switch_locations e) \<union> set (door_locations e)"
  shows "\<exists>ch. (p, ch) \<in> set (initial_map_state e) \<and> (p, ch) \<in> set (cells_of (base_map e))"
proof -
  have sw: "switch_locations e =
              map fst (filter (\<lambda>x. is_switch (snd x)) (cells_of (base_map e)))"
    and dr: "door_locations e = map fst (filter (\<lambda>x. is_door (snd x)) (cells_of (base_map e)))"
    and ims: "initial_map_state e =
       filter (\<lambda>x. is_switch (snd x) \<or> is_door (snd x)) (cells_of (base_map e))"
    using assms(1) by (simp_all add: registry_ok_def)
  from assms(2) show ?thesis
    unfolding sw dr ims by auto
qed

text \<open>
  C7. In every reachable state \<open>custom_reset\<close> returns, and a second \<open>custom_reset\<close> right
  after it returns the same state. In that state every registered switch and door cell
  holds the symbol of the base layout, the five counters and \<open>prev_activated_switch_count\<close>
  are 0 and both pull-timestep fields are unset.
\<close>

theorem custom_reset_idempotent:
  assumes "reachable e"
  shows "\<exists>e1. custom_reset e = Inr e1 \<and> custom_reset e1 = Inr e1 \<and>
           (\<forall>p \<in> set (switch_locations e1) \<union> set (door_locations e1).
              grid_get (world_map e1) (fst p) (snd p) = grid_get (base_map e1) (fst p) (snd p)) \<and>
           timestep e1 = 0 \<and> total_pulled_on e1 = 0 \<and> total_pulled_off e1 = 0 \<and>
           switches_on_at_termination e1 = 0 \<and> total_successes e1 = 0 \<and>
           timestep_first_switch_pull e1 = NaN \<and> timestep_last_switch_pull e1 = NaN \<and>
           prev_activated_switch_count e1 = 0"
proof -
  have ok: "registry_ok e" using reachable_inv [OF assms] by simp
  from registry_ok_total(2) [OF ok] obtain e1 where r: "custom_reset e = Inr e1" by blast
  from custom_reset_Inr [OF r] obtain g where
    g: "restore_cells (world_map e) (initial_map_state e) = Inr g"
    and e1: "e1 = e\<lparr>world_map := g, prev_activated_switch_count := 0, timestep := 0,
                    total_pulled_on := 0, total_pulled_off := 0,
                    timestep_first_switch_pull := NaN, timestep_last_switch_pull := NaN,
                    switches_on_at_termination := 0, total_successes := 0\<rparr>"
    by (elim exE conjE)
  have again: "restore_cells g (initial_map_state e) = Inr g"
    by (rule restore_cells_twice [OF g registry_distinct [OF ok]])
  have twice: "custom_reset e1 = Inr e1"
    unfolding custom_reset_def by (simp add: e1 again)
  have cells: "grid_get g (fst p) (snd p) = grid_get (base_map e) (fst p) (snd p)"
    if p: "p \<in> set (switch_locations e) \<union> set (door_locations e)" for p
  proof -
    from registered_in_snapshot [OF ok p] obtain ch where
      a: "(p, ch) \<in> set (initial_map_state e)" and b: "(p, ch) \<in> set (cells_of (base_map e))"
      by blast
    have "((fst p, snd p), ch) \<in> set (initial_map_state e)" using a by simp
    from restore_cells_written [OF g registry_distinct [OF ok] this] cells_of_grid_get [OF b]
    show ?thesis by simp
  qed
  have "\<forall>p \<in> set (switch_locations e1) \<union> set (door_locations e1).
              grid_get (world_map e1) (fst p) (snd p) = grid_get (base_map e1) (fst p) (snd p)"
    using cells by (simp add: e1)
  moreover have "timestep e1 = 0 \<and> total_pulled_on e1 = 0 \<and> total_pulled_off e1 = 0 \<and>
           switches_on_at_termination e1 = 0 \<and> total_successes e1 = 0 \<and>
           timestep_first_switch_pull e1 = NaN \<and> timestep_last_switch_pull e1 = NaN \<and>
           prev_activated_switch_count e1 = 0"
    by (simp add: e1)
  ultimately show ?thesis using r twice by blast
qed

lemma extra_info_keys:
  "map fst (create_extra_info_dict e) =
     [''switches_on_at_termination'', ''total_pulled_on'', ''total_pulled_off'',
      ''timestep_first_switch_pull'', ''timestep_last_switch_pull'', ''total_successes'']"
  by (simp add: create_extra_info_dict_def)

text \<open>
  C6, as amended. When \<open>step\<close> returns, the \<open>actions\<close> mapping has a first agent id, and
  the returned info dictionary holds under that id the dictionary of the six fields, with
  the values of the state after the step. Under every other key the returned info is the
  engine's own.
\<close>

theorem step_info_first_agent:
  assumes "step e actions turn = Inr (e', obs, rew, dn, info)"
  shows "\<exists>first_agent act rest.
           actions = (first_agent, act) # rest \<and>
           info first_agent = Some (create_extra_info_dict e') \<and>
           map fst (create_extra_info_dict e') =
             [''switches_on_at_termination'', ''total_pulled_on'', ''total_pulled_off'',
              ''timestep_first_switch_pull'', ''timestep_last_switch_pull'', ''total_successes''] \<and>
           (\<forall>a. a \<noteq> first_agent \<longrightarrow> info a = engine_info turn a)"
proof -
  from assms obtain e1 first_agent act rest r where
    acts: "actions = (first_agent, act) # rest"
    and e': "e' = e1\<lparr>total_successes := total_successes e1 + (if r > success_threshold then 1 else 0),
             timestep := timestep e1 + 1\<rparr>"
    and out: "(obs, rew, dn, info) = (engine_observations turn, engine_rewards turn, engine_dones turn,
            engine_info turn ++
              [first_agent \<mapsto>
                 create_extra_info_dict
                   (e1\<lparr>total_successes :=
                         total_successes e1 + (if r > success_threshold then 1 else 0)\<rparr>)])"
    by (rule step_E)
  have same: "create_extra_info_dict
                (e1\<lparr>total_successes :=
                      total_successes e1 + (if r > success_threshold then 1 else 0)\<rparr>) =
              create_extra_info_dict e'"
    by (simp add: create_extra_info_dict_def e')
  from out have info: "info = engine_info turn ++ [first_agent \<mapsto> create_extra_info_dict e']"
    unfolding same by simp
  have h1: "info first_agent = Some (create_extra_info_dict e')"
    by (simp add: info)
  have h2: "\<forall>a. a \<noteq> first_agent \<longrightarrow> info a = engine_info turn a"
    by (simp add: info map_add_def)
  show ?thesis
    by (intro exI [of _ first_agent] exI [of _ act] exI [of _ rest] conjI)
       (rule acts h1 extra_info_keys h2)+
qed

subsection \<open>The two-switch environment, run\<close>

text \<open>
  The theorems above at the example: both switches are pulled on in the first timestep,
  which opens the door, and one is pulled off in the second, which closes it.
\<close>

lemmas example_defs =
  example_base_def example_walls_def example_agents_def example_start_def example_on_def
  example_solved_def example_after_on_def example_after_off_def example_turn_on_def
  example_turn_off_def example_actions_def

lemma ex_reset: "custom_reset (init example_base example_walls example_agents) = Inr example_start"
  by code_simp

lemma ex_reset_on: "custom_reset example_on = Inr example_start"
  by code_simp

lemma ex_update_on: "custom_map_update example_on = Inr example_solved"
  by code_simp

lemma ex_update_start: "custom_map_update example_start = Inr example_start"
  by code_simp

lemma ex_engine_on:
  "example_on\<lparr>world_map := grid_after_actions example_turn_on,
              agents := agents_after_actions example_turn_on\<rparr> = example_on"
  by (simp add: example_defs)

lemma ex_engine_start:
  "example_start\<lparr>world_map := grid_after_actions example_turn_on,
              agents := agents_after_actions example_turn_on\<rparr> = example_on"
  by (simp add: example_defs)

lemma ex_step_on:
  "step example_start example_actions example_turn_on =
     Inr (example_after_on, (), engine_rewards example_turn_on, (),
          [''agent-0'' \<mapsto> create_extra_info_dict example_after_on])"
  unfolding step_def MapEnv_step_def ex_engine_start ex_update_on
  by (simp add: example_defs success_threshold_def create_extra_info_dict_def)

lemma ex_update_off:
  "custom_map_update
     (example_after_on\<lparr>world_map := grid_after_actions example_turn_off,
                       agents := agents_after_actions example_turn_off\<rparr>) =
   Inr (example_after_off\<lparr>timestep := 1\<rparr>)"
  by code_simp

lemma ex_step_off:
  "step example_after_on example_actions example_turn_off =
     Inr (example_after_off, (), engine_rewards example_turn_off, (),
          [''agent-0'' \<mapsto> create_extra_info_dict example_after_off])"
  unfolding step_def MapEnv_step_def ex_update_off
  by (simp add: example_defs success_threshold_def create_extra_info_dict_def)

lemma ex_run:
  "run_steps example_start
     [(example_actions, example_turn_on), (example_actions, example_turn_off)] =
   Inr example_after_off"
  by (simp add: ex_step_on ex_step_off)

lemma ex_step_from_on:
  "step example_on example_actions example_turn_on =
     Inr (example_after_on, (), engine_rewards example_turn_on, (),
          [''agent-0'' \<mapsto> create_extra_info_dict example_after_on])"
  using ex_step_on unfolding step_def MapEnv_step_def ex_engine_start ex_engine_on .

lemma example_start_reachable: "reachable example_start"
proof -
  have "same_shape example_base example_walls"
    by (simp add: same_shape_def example_base_def example_walls_def)
  from r_reset [OF r_init [OF this] ex_reset] show ?thesis .
qed

lemma example_on_reachable: "reachable example_on"
proof -
  have "same_shape (world_map example_start) (grid_after_actions example_turn_on)"
    by (simp add: same_shape_def example_start_def example_turn_on_def)
  from r_engine [OF example_start_reachable this, of "agents_after_actions example_turn_on"]
  show ?thesis by (simp only: ex_engine_start)
qed


lemma activated_on: "activated example_on = 2"
  by (simp add: activated_def num_switches_on_def grid_get_def example_defs)

lemma activated_start: "activated example_start = 0"
  by (simp add: activated_def num_switches_on_def grid_get_def example_defs)

theorem doors_toggle_together_witness:
  "reachable example_on \<and>
   (\<exists>e'. custom_map_update example_on = Inr e' \<and>
         grid_get (world_map e') 0 3 = Inr (CHR ''d''))"
proof -
  from doors_toggle_together [OF example_on_reachable] obtain e' where
    u: "custom_map_update example_on = Inr e'"
    and d: "door_locations e' = door_locations example_on"
    and w: "\<forall>p \<in> set (door_locations e').
              grid_get (world_map e') (fst p) (snd p) =
                Inr (if activated example_on = switch_count example_on
                     then CHR ''d'' else CHR ''D'')"
    by blast
  have "(0, 3) \<in> set (door_locations e')"
    unfolding d by (simp add: example_defs)
  moreover have "switch_count example_on = 2" by (simp add: example_defs)
  ultimately have "grid_get (world_map e') 0 3 = Inr (CHR ''d'')"
    using bspec [OF w, of "(0, 3)"] by (simp add: activated_on)
  with u example_on_reachable show ?thesis by blast
qed

theorem custom_map_update_writes_doors_only_witness:
  "custom_map_update example_on = Inr example_solved \<and>
   grid_get (world_map example_solved) 1 3 = grid_get (world_map example_on) 1 3 \<and>
   reachable example_on \<and>
   grid_get (world_map example_solved) 1 5 = Inr (CHR ''S'')"
proof -
  note t = custom_map_update_writes_doors_only [OF ex_update_on]
  have "(1, 3) \<notin> set (door_locations example_on)" by (simp add: example_defs)
  with t have a: "grid_get (world_map example_solved) 1 3 = grid_get (world_map example_on) 1 3"
    by blast
  have sw: "(1, 5) \<in> set (switch_locations example_on)" by (simp add: example_defs)
  from t example_on_reachable
  have "\<forall>p \<in> set (switch_locations example_on).
          grid_get (world_map example_solved) (fst p) (snd p) =
          grid_get (world_map example_on) (fst p) (snd p)"
    by simp
  from bspec [OF this sw] have b: "grid_get (world_map example_solved) 1 5 = Inr (CHR ''S'')"
    by (simp add: grid_get_def example_defs)
  from a b ex_update_on example_on_reachable show ?thesis by blast
qed

theorem termination_snapshot_witness:
  "reachable example_on \<and> custom_map_update example_on = Inr example_solved \<and>
   switches_on_at_termination example_solved = 2 \<and>
   same_shape (world_map example_on) (grid_after_actions example_turn_on) \<and>
   switches_on_at_termination example_after_on = activated example_after_on"
proof -
  have sh: "same_shape (world_map example_on) (grid_after_actions example_turn_on)"
    by (simp add: same_shape_def example_defs)
  note st = ex_step_from_on
  note t = termination_snapshot [OF example_on_reachable,
      of example_solved example_turn_on example_actions example_after_on]
  from t ex_update_on have "switches_on_at_termination example_solved = activated example_on"
    by blast
  moreover from t sh st
  have "switches_on_at_termination example_after_on = activated example_after_on"
    by blast
  ultimately show ?thesis
    using example_on_reachable ex_update_on sh by (simp add: activated_on)
qed

theorem pulled_totals_balance_witness:
  "reachable example_on \<and> custom_map_update example_on = Inr example_solved \<and>
   total_pulled_on example_solved - total_pulled_off example_solved = 2 \<and>
   custom_reset example_on = Inr example_start \<and>
   prev_activated_switch_count example_start = 0"
proof -
  note t = pulled_totals_balance [OF example_on_reachable, of example_solved example_start]
  from t ex_update_on
  have "total_pulled_on example_solved - total_pulled_off example_solved = activated example_on"
    by blast
  moreover from t ex_reset_on have "prev_activated_switch_count example_start = 0"
    by blast
  ultimately show ?thesis
    using example_on_reachable ex_update_on ex_reset_on by (simp add: activated_on)
qed


lemma example_after_on_reachable: "reachable example_after_on"
proof -
  have "same_shape (world_map example_start) (grid_after_actions example_turn_on)"
    by (simp add: same_shape_def example_defs)
  from reachable_step [OF example_start_reachable this ex_step_on] show ?thesis .
qed

theorem pull_timesteps_witness:
  "reachable example_on \<and> custom_map_update example_on = Inr example_solved \<and>
   timestep_first_switch_pull example_solved = Num 0 \<and>
   timestep_last_switch_pull example_solved = Num 0 \<and>
   custom_reset example_on = Inr example_start \<and>
   timestep_first_switch_pull example_start = NaN \<and>
   reachable example_start \<and> custom_map_update example_start = Inr example_start \<and>
   timestep_last_switch_pull example_start = NaN \<and>
   timestep_first_switch_pull (example_after_off\<lparr>timestep := 1\<rparr>) = Num 0 \<and>
   timestep_last_switch_pull (example_after_off\<lparr>timestep := 1\<rparr>) = Num 1"
proof -
  let ?e3 = "example_after_on\<lparr>world_map := grid_after_actions example_turn_off,
                       agents := agents_after_actions example_turn_off\<rparr>"
  have r3: "reachable ?e3"
    by (rule r_engine [OF example_after_on_reachable]) (simp add: same_shape_def example_defs)
  note t1 = pull_timesteps [OF example_on_reachable, of example_start example_solved]
  note t2 = pull_timesteps [OF example_start_reachable, of example_start example_start]
  note t3 = pull_timesteps [OF r3, of example_start "example_after_off\<lparr>timestep := 1\<rparr>"]
  have d1: "activated example_on - prev_activated_switch_count example_on \<noteq> 0"
    and n1: "timestep_first_switch_pull example_on = NaN" and ts1: "timestep example_on = 0"
    by (simp_all add: activated_on) (simp_all add: example_defs)
  from t1 ex_update_on d1 n1 ts1
  have a: "timestep_first_switch_pull example_solved = Num 0 \<and>
           timestep_last_switch_pull example_solved = Num 0"
    by simp
  from t1 ex_reset_on have b: "timestep_first_switch_pull example_start = NaN" by simp
  have d2: "activated example_start - prev_activated_switch_count example_start = 0"
    by (simp add: activated_start) (simp add: example_defs)
  from t2 ex_update_start d2 b
  have c: "timestep_last_switch_pull example_start = NaN" by simp
  have d3: "activated ?e3 - prev_activated_switch_count ?e3 \<noteq> 0"
    and n3: "timestep_first_switch_pull ?e3 = Num 0" and ts3: "timestep ?e3 = 1"
    by (simp_all add: activated_def num_switches_on_def grid_get_def example_defs)
  from t3 ex_update_off d3 n3 ts3
  have d: "timestep_first_switch_pull (example_after_off\<lparr>timestep := 1\<rparr>) = Num 0 \<and>
           timestep_last_switch_pull (example_after_off\<lparr>timestep := 1\<rparr>) = Num 1"
    by simp
  from a b c d example_on_reachable example_start_reachable ex_update_on ex_reset_on
    ex_update_start
  show ?thesis by simp
qed

theorem pulled_totals_monotone_witness:
  "custom_map_update example_on = Inr example_solved \<and>
   total_pulled_on example_solved = total_pulled_on example_on + 2 \<and>
   run_steps example_start
     [(example_actions, example_turn_on), (example_actions, example_turn_off)] =
     Inr example_after_off \<and>
   total_pulled_on example_start \<le> total_pulled_on example_after_off \<and>
   total_pulled_off example_start \<le> total_pulled_off example_after_off"
proof -
  note t1 = pulled_totals_monotone [of example_on example_solved]
  note t2 = pulled_totals_monotone [of example_start _
      "[(example_actions, example_turn_on), (example_actions, example_turn_off)]"
      example_after_off]
  have p: "prev_activated_switch_count example_on = 0" by (simp add: example_defs)
  from t1 ex_update_on
  have "total_pulled_on example_solved =
          total_pulled_on example_on +
          max 0 (activated example_on - prev_activated_switch_count example_on)"
    by blast
  then have a: "total_pulled_on example_solved = total_pulled_on example_on + 2"
    by (simp add: activated_on p)
  from t2 ex_run
  have b: "total_pulled_on example_start \<le> total_pulled_on example_after_off \<and>
           total_pulled_off example_start \<le> total_pulled_off example_after_off"
    by blast
  from a b ex_update_on ex_run show ?thesis by simp
qed

theorem switch_registry_fixed_witness:
  "reachable example_on \<and>
   switch_locations example_on = [(1, 1), (1, 5)] \<and> switch_count example_on = 2 \<and>
   custom_reset example_on = Inr example_start \<and>
   switch_locations example_start = switch_locations example_on \<and>
   custom_map_update example_on = Inr example_solved \<and>
   switch_count example_solved = switch_count example_on \<and>
   grid_get (world_map example_solved) 0 3 = Inr (CHR ''d'') \<and>
   switch_locations example_after_on = switch_locations example_on"
proof -
  note t = switch_registry_fixed [OF example_on_reachable,
      where bm = example_base and wm = example_walls and ags = example_agents
        and ?e1.0 = example_start and ?e2.0 = example_solved
        and actions = example_actions and turn = example_turn_on
        and ?e3.0 = example_after_on
        and out = "((), engine_rewards example_turn_on, (),
                    [''agent-0'' \<mapsto> create_extra_info_dict example_after_on])"]
  have cells: "map fst (filter (\<lambda>x. is_switch (snd x)) (cells_of (base_map example_on))) =
               [(1, 1), (1, 5)]"
    by code_simp
  from t cells have a: "switch_locations example_on = [(1, 1), (1, 5)]" by simp
  from t a have b: "switch_count example_on = 2" by simp
  from t ex_reset_on have c: "switch_locations example_start = switch_locations example_on"
    by simp
  from t ex_update_on have d: "switch_count example_solved = switch_count example_on"
    by simp
  have door: "(0, 3) \<in> set (door_locations example_on)" by (simp add: example_defs)
  from t ex_update_on
  have "\<forall>p \<in> set (door_locations example_on).
               grid_get (world_map example_solved) (fst p) (snd p) =
                 Inr (if activated example_on = int (length (switch_locations example_on))
                      then CHR ''d'' else CHR ''D'')"
    by simp
  from bspec [OF this door] have e: "grid_get (world_map example_solved) 0 3 = Inr (CHR ''d'')"
    by (simp add: activated_on a)
  from t ex_step_from_on
  have f: "switch_locations example_after_on = switch_locations example_on"
    by simp
  from a b c d e f example_on_reachable ex_reset_on ex_update_on show ?thesis by simp
qed

theorem custom_reset_idempotent_witness:
  "reachable example_on \<and> custom_reset example_on = Inr example_start \<and>
   custom_reset example_start = Inr example_start \<and>
   grid_get (world_map example_start) 1 1 = grid_get (base_map example_start) 1 1"
proof -
  from custom_reset_idempotent [OF example_on_reachable] obtain e1 where
    r: "custom_reset example_on = Inr e1" and rr: "custom_reset e1 = Inr e1"
    and cells: "\<forall>p \<in> set (switch_locations e1) \<union> set (door_locations e1).
      grid_get (world_map e1) (fst p) (snd p) = grid_get (base_map e1) (fst p) (snd p)"
    by blast
  from r ex_reset_on have e1: "e1 = example_start" by simp
  have "(1, 1) \<in> set (switch_locations example_start) \<union> set (door_locations example_start)"
    by (simp add: example_defs)
  from bspec [OF cells [unfolded e1] this]
  have "grid_get (world_map example_start) 1 1 = grid_get (base_map example_start) 1 1"
    by simp
  with r rr e1 example_on_reachable show ?thesis by simp
qed

theorem step_info_first_agent_witness:
  "step example_start example_actions example_turn_on =
     Inr (example_after_on, (), engine_rewards example_turn_on, (),
          [''agent-0'' \<mapsto> create_extra_info_dict example_after_on]) \<and>
   [''agent-0'' \<mapsto> create_extra_info_dict example_after_on] ''agent-0'' =
     Some (create_extra_info_dict example_after_on) \<and>
   engine_info example_turn_on ''agent-1'' = None"
proof -
  from step_info_first_agent [OF ex_step_on] obtain first_agent act rest where
    acts: "example_actions = (first_agent, act) # rest"
    and i: "[''agent-0'' \<mapsto> create_extra_info_dict example_after_on] first_agent =
              Some (create_extra_info_dict example_after_on)"
    and o: "\<forall>a. a \<noteq> first_agent \<longrightarrow>
              [''agent-0'' \<mapsto> create_extra_info_dict example_after_on] a =
              engine_info example_turn_on a"
    by blast
  from acts have f: "first_agent = ''agent-0''" by (simp add: example_actions_def)
  from o f have "engine_info example_turn_on ''agent-1'' = None" by (simp add: example_turn_on_def)
  with i f ex_step_on show ?thesis by simp
qed

text \<open>
  C6 as stated fails: with two agents in \<open>actions\<close> and no info from the engine, the
  returned info has an entry for the first agent only, so the second agent id has none of
  the six fields.
\<close>

theorem step_info_counterexample:
  "step example_start example_actions example_turn_on =
     Inr (example_after_on, (), engine_rewards example_turn_on, (),
          [''agent-0'' \<mapsto> create_extra_info_dict example_after_on]) \<and>
   ''agent-1'' \<in> fst ` set example_actions \<and>
   [''agent-0'' \<mapsto> create_extra_info_dict example_after_on] ''agent-1'' = None"
  using ex_step_on by (simp add: example_actions_def)

end
